theory Spec2Isabelle
  imports Complex_Main "HOL-Library.Word"
begin

unbundle bit_operations_syntax

section \<open>Modelling conventions\<close>

text \<open>
  The numeric core of the engine, embedded function by function.

  \<^item> \<open>float\<close> has two readings. Where a statement is about which cells a loop reads and
    writes, or is an evaluation on small integers and halves (on which binary32 arithmetic
    is exact), \<open>float\<close> is \<open>real\<close>: the tensor, the round trip of the codec, the two GEMM
    kernels and the loop nest of the attention. Where rounding, overflow or NaN decide the
    statement, \<open>float\<close> is the type \<open>float\<close> of the next section, IEEE 754 binary32 with
    round-to-nearest-even: the fused kernel of the codec against the dense path, and the
    softmax of one attention row.
  \<^item> \<open>int\<close> is a 32-bit word and \<open>size_t\<close> a 64-bit word wherever the code stores or
    converts them (\<open>Tensor::calculate_numel\<close>, \<open>Tensor::calculate_byte_size\<close>, shapes).
    Loop counters and flat indices of the kernels are naturals: their 32-bit wrap-around is
    not modelled.
  \<^item> A buffer reached through a pointer is a list; \<open>xs ! i\<close> beyond the end is an
    unspecified value, as the read is undefined in the source. The theorems state the
    lengths they need.
  \<^item> An exception is a value \<open>Inl e\<close> of a sum type. Failure of the system allocator
    (\<open>std::bad_alloc\<close>) is not modelled.
\<close>

type_synonym c_int = "32 word"
type_synonym size_t = "64 word"
type_synonym uint8_t = "8 word"
type_synonym int8_t = "8 word"

datatype error = runtime_error string


section \<open>binary32 arithmetic\<close>

text \<open>
  A binary32 value is a finite real, an infinity or NaN. The two zeros are one value (a
  divisor 0 counts as \<open>+0\<close>), and NaN payloads are not distinguished.
\<close>

datatype float = Finite real | PInf | NInf | NaN

text \<open>To the nearest integer, halves to the even one.\<close>

definition round_even :: "real \<Rightarrow> int" where
  "round_even x =
     (let f = \<lfloor>x\<rfloor>; d = x - of_int f
      in if d < 1 / 2 then f else if 1 / 2 < d then f + 1 else if even f then f else f + 1)"

text \<open>
  The exponent of the unit in the last place of \<open>x\<close>: 23 below the exponent of \<open>x\<close>, and
  \<open>-149\<close> throughout the subnormal range.
\<close>

definition ulp_exponent :: "real \<Rightarrow> int" where
  "ulp_exponent x = max \<lfloor>log 2 \<bar>x\<bar>\<rfloor> (- 126) - 23"

text \<open>
  \<open>round32\<close> rounds a real to the nearest binary32 value, ties to the even significand; a
  rounded magnitude of \<open>2 ^ 128\<close> or more is an infinity.
\<close>

definition round32 :: "real \<Rightarrow> float" where
  "round32 x =
     (if x = 0 then Finite 0
      else (let u = 2 powr of_int (ulp_exponent x); y = of_int (round_even (x / u)) * u
            in if 2 ^ 128 \<le> \<bar>y\<bar> then (if 0 < x then PInf else NInf) else Finite y))"


fun negative :: "float \<Rightarrow> bool" where
  "negative (Finite x) \<longleftrightarrow> x < 0"
| "negative NInf \<longleftrightarrow> True"
| "negative PInf \<longleftrightarrow> False"
| "negative NaN \<longleftrightarrow> False"

text \<open>
  The real that a finite value stands for (0 for the other values: the statements that
  use it establish finiteness).
\<close>

fun real_of_float :: "float \<Rightarrow> real" where
  "real_of_float (Finite x) = x"
| "real_of_float PInf = 0"
| "real_of_float NInf = 0"
| "real_of_float NaN = 0"

fun isfinite :: "float \<Rightarrow> bool" where
  "isfinite (Finite x) \<longleftrightarrow> True"
| "isfinite PInf \<longleftrightarrow> False"
| "isfinite NInf \<longleftrightarrow> False"
| "isfinite NaN \<longleftrightarrow> False"

fun fadd :: "(real \<Rightarrow> float) \<Rightarrow> float \<Rightarrow> float \<Rightarrow> float" where
  "fadd rnd (Finite x) (Finite y) = rnd (x + y)"
| "fadd rnd NaN b = NaN"
| "fadd rnd a NaN = NaN"
| "fadd rnd PInf NInf = NaN"
| "fadd rnd NInf PInf = NaN"
| "fadd rnd PInf b = PInf"
| "fadd rnd a PInf = PInf"
| "fadd rnd NInf b = NInf"
| "fadd rnd a NInf = NInf"


fun fmul :: "(real \<Rightarrow> float) \<Rightarrow> float \<Rightarrow> float \<Rightarrow> float" where
  "fmul rnd (Finite x) (Finite y) = rnd (x * y)"
| "fmul rnd NaN b = NaN"
| "fmul rnd a NaN = NaN"
| "fmul rnd a b =
     (if a = Finite 0 \<or> b = Finite 0 then NaN
      else if negative a = negative b then PInf else NInf)"





section \<open>Tensor (tensor.hpp, tensor.cpp)\<close>

datatype DType = FP32 | FP16 | INT8 | Q4

text \<open>
  The buffer \<open>data_\<close> is the field \<open>raw\<close>. It is held at the granularity of the accessor
  the code reads it through: bytes for \<open>raw()\<close>, \<open>q4_data()\<close> and \<open>memcpy\<close>, binary32
  elements for \<open>data<float>()\<close>.
\<close>

record 'e Tensor =
  shape :: "c_int list"
  dtype :: DType
  numel :: size_t
  byte_size :: size_t
  raw :: "'e list"

text \<open>
  \<open>std::multiplies<int>\<close> applied by \<open>std::accumulate\<close> to an accumulator of type
  \<open>unsigned long\<close>: the accumulator is converted to \<open>int\<close>, multiplied as \<open>int\<close>, and the
  \<open>int\<close> result converted back (sign-extended). Signed overflow is undefined in C++; the
  model wraps, as the generated 32-bit multiplication does.
\<close>

definition multiplies_int :: "size_t \<Rightarrow> c_int \<Rightarrow> size_t" where
  "multiplies_int acc d = scast ((ucast acc :: c_int) * d)"

definition calculate_numel :: "c_int list \<Rightarrow> size_t" where
  "calculate_numel shp = (if shp = [] then 0 else fold (\<lambda>d acc. multiplies_int acc d) shp 1)"

fun calculate_byte_size :: "size_t \<Rightarrow> DType \<Rightarrow> size_t" where
  "calculate_byte_size n FP32 = n * 4"
| "calculate_byte_size n FP16 = n * 2"
| "calculate_byte_size n INT8 = n * 1"
| "calculate_byte_size n Q4 = (n + 1) div 2"

text \<open>\<open>element_size\<close> returns \<open>size_t\<close>; the literal \<open>0.5\<close> of the Q4 case converts to 0.\<close>

fun element_size :: "DType \<Rightarrow> size_t" where
  "element_size FP32 = 4"
| "element_size FP16 = 2"
| "element_size INT8 = 1"
| "element_size Q4 = 0"

text \<open>
  The constructor. \<open>std::make_unique<uint8_t[]>(n)\<close> value-initialises, so a fresh buffer
  is all zero. \<open>Tensor_bytes\<close> is the byte view, \<open>Tensor_f32\<close> the view of the same buffer
  as \<open>byte_size / 4\<close> binary32 elements.
\<close>

definition Tensor_bytes :: "c_int list \<Rightarrow> DType \<Rightarrow> uint8_t Tensor" where
  "Tensor_bytes shp dt =
     (let n = calculate_numel shp; bs = calculate_byte_size n dt
      in \<lparr>shape = shp, dtype = dt, numel = n, byte_size = bs, raw = replicate (unat bs) 0\<rparr>)"

definition Tensor_f32 :: "c_int list \<Rightarrow> DType \<Rightarrow> real Tensor" where
  "Tensor_f32 shp dt =
     (let n = calculate_numel shp; bs = calculate_byte_size n dt
      in \<lparr>shape = shp, dtype = dt, numel = n, byte_size = bs, raw = replicate (unat bs div 4) 0\<rparr>)"

text \<open>\<open>memcpy(dst, src, n)\<close> on two buffers that each hold at least \<open>n\<close> cells.\<close>

definition memcpy :: "'e list \<Rightarrow> 'e list \<Rightarrow> nat \<Rightarrow> 'e list" where
  "memcpy dst src n = take n src @ drop n dst"

definition reshape :: "uint8_t Tensor \<Rightarrow> c_int list \<Rightarrow> error + uint8_t Tensor" where
  "reshape t new_shape =
     (let new_numel = calculate_numel new_shape
      in if new_numel \<noteq> numel t
         then Inl (runtime_error ''Cannot reshape: total elements don't match'')
         else (let reshaped = Tensor_bytes new_shape (dtype t)
               in Inr (reshaped\<lparr>raw := memcpy (raw reshaped) (raw t) (unat (byte_size t))\<rparr>)))"

text \<open>
  \<open>data<float>()\<close>: the two checks of the templated accessor at \<open>sizeof(float) = 4\<close>.
\<close>

definition data_float :: "real Tensor \<Rightarrow> error + real list" where
  "data_float t =
     (if dtype t = Q4
      then Inl (runtime_error ''Q4 tensors should use raw() access for uint8_t data'')
      else if 4 \<noteq> element_size (dtype t) then Inl (runtime_error ''Type size mismatch'')
      else Inr (raw t))"

text \<open>An FP32 tensor as a caller hands it to a kernel: constructed, then filled.\<close>

definition filled :: "c_int list \<Rightarrow> real list \<Rightarrow> real Tensor" where
  "filled shp xs = (Tensor_f32 shp FP32)\<lparr>raw := xs\<rparr>"

text \<open>
  The class invariant the constructor establishes and every member keeps (a moved-from
  tensor, whose buffer is null, is excluded).
\<close>

definition tensor_wf :: "uint8_t Tensor \<Rightarrow> bool" where
  "tensor_wf t \<longleftrightarrow>
     numel t = calculate_numel (shape t) \<and>
     byte_size t = calculate_byte_size (numel t) (dtype t) \<and>
     length (raw t) = unat (byte_size t)"


section \<open>Row-wise 4-bit codec (q4_rowwise.hpp, q4_rowwise.cpp)\<close>

definition decode_q4_signed :: "uint8_t \<Rightarrow> int8_t" where
  "decode_q4_signed nib = (if nib AND 8 \<noteq> 0 then nib - 16 else nib)"

text \<open>The nibble of element \<open>(m, k)\<close>, as both readers extract it.\<close>

definition nibble_at :: "uint8_t list \<Rightarrow> nat \<Rightarrow> nat \<Rightarrow> nat \<Rightarrow> uint8_t" where
  "nibble_at qweights K m k =
     (let packed_byte = qweights ! ((m * K + k) div 2)
      in if k mod 2 = 0 then packed_byte AND 0x0F else drop_bit 4 packed_byte)"

text \<open>\<open>static_cast<float>\<close> of an \<open>int8_t\<close>.\<close>

definition float_of_int8 :: "int8_t \<Rightarrow> real" where
  "float_of_int8 q = real_of_int (sint q)"

text \<open>
  The fused kernel, in the arithmetic \<open>rnd\<close>: the row sum is accumulated term by term and
  multiplied by the row scale once.
\<close>

definition matvec_q4_rowwise ::
  "(real \<Rightarrow> float) \<Rightarrow> uint8_t list \<Rightarrow> float list \<Rightarrow> float list \<Rightarrow> float list \<Rightarrow> nat \<Rightarrow> nat
     \<Rightarrow> float list" where
  "matvec_q4_rowwise rnd qweights scales x y M K =
     fold (\<lambda>m y.
        let sum = fold (\<lambda>k sum.
                     fadd rnd sum
                       (fmul rnd (Finite (float_of_int8 (decode_q4_signed (nibble_at qweights K m k))))
                          (x ! k)))
                   [0..<K] (Finite 0)
        in y[m := fmul rnd (scales ! m) sum])
      [0..<M] y"

definition dequantize_q4_rowwise ::
  "uint8_t list \<Rightarrow> real list \<Rightarrow> real list \<Rightarrow> nat \<Rightarrow> nat \<Rightarrow> real list" where
  "dequantize_q4_rowwise qweights scales out M K =
     fold (\<lambda>m out.
        fold (\<lambda>k out.
           out[m * K + k :=
                 float_of_int8 (decode_q4_signed (nibble_at qweights K m k)) * scales ! m])
         [0..<K] out)
      [0..<M] out"

text \<open>The same loop in the arithmetic \<open>rnd\<close>: every element is one rounded product.\<close>

definition dequantize_q4_rowwise_f32 ::
  "(real \<Rightarrow> float) \<Rightarrow> uint8_t list \<Rightarrow> float list \<Rightarrow> float list \<Rightarrow> nat \<Rightarrow> nat \<Rightarrow> float list" where
  "dequantize_q4_rowwise_f32 rnd qweights scales out M K =
     fold (\<lambda>m out.
        fold (\<lambda>k out.
           out[m * K + k :=
                 fmul rnd (Finite (float_of_int8 (decode_q4_signed (nibble_at qweights K m k))))
                   (scales ! m)])
         [0..<K] out)
      [0..<M] out"

text \<open>\<open>std::round\<close>: to the nearest integer, halves away from zero.\<close>

definition std_round :: "real \<Rightarrow> int" where
  "std_round x = (if 0 \<le> x then \<lfloor>x + 1 / 2\<rfloor> else - \<lfloor>- x + 1 / 2\<rfloor>)"

text \<open>
  \<open>static_cast<int8_t>\<close> of the rounded quotient keeps the low eight bits (the conversion
  is undefined in C++ outside \<open>[-128, 127]\<close>; compilers convert to a wider integer and
  truncate). \<open>std::min\<close> and \<open>std::max\<close> compare as signed.
\<close>

definition int8_of_float :: "int \<Rightarrow> int8_t" where
  "int8_of_float r = word_of_int r"

definition min_int8 :: "int8_t \<Rightarrow> int8_t \<Rightarrow> int8_t" where
  "min_int8 a b = (if sint b < sint a then b else a)"

definition max_int8 :: "int8_t \<Rightarrow> int8_t \<Rightarrow> int8_t" where
  "max_int8 a b = (if sint a < sint b then b else a)"

text \<open>
  \<open>quantize\<close> is the three statements the packer runs for each nibble: divide by the
  row scale, round and convert, clamp.
\<close>

definition quantize :: "real \<Rightarrow> real \<Rightarrow> int8_t" where
  "quantize w scale = max_int8 (- 8) (min_int8 7 (int8_of_float (std_round (w / scale))))"

text \<open>The \<open>k\<close> loop of the packer advances by two: \<open>k = 0, 2, 4, \<dots> < K\<close>.\<close>

definition even_upto :: "nat \<Rightarrow> nat list" where
  "even_upto K = map (\<lambda>i. 2 * i) [0..<(K + 1) div 2]"

definition pack_q4_rowwise ::
  "real list \<Rightarrow> real list \<Rightarrow> uint8_t list \<Rightarrow> real list \<Rightarrow> nat \<Rightarrow> nat
     \<Rightarrow> uint8_t list \<times> real list" where
  "pack_q4_rowwise weights scales qweights scales_out M K =
     (let scales_out = memcpy scales_out scales M;
          qweights =
            fold (\<lambda>m qweights.
               fold (\<lambda>k qweights.
                  let byte = 0 OR (quantize (weights ! (m * K + k)) (scales_out ! m) AND 0x0F);
                      byte = (if k + 1 < K
                              then byte OR push_bit 4
                                     (quantize (weights ! (m * K + k + 1)) (scales_out ! m) AND 0x0F)
                              else byte)
                  in qweights[(m * K + k) div 2 := byte])
                (even_upto K) qweights)
             [0..<M] qweights
      in (qweights, scales_out))"

section \<open>Reference GEMM (gemm_ref.cpp)\<close>

definition simple_matmul ::
  "real list \<Rightarrow> real list \<Rightarrow> real list \<Rightarrow> nat \<Rightarrow> nat \<Rightarrow> nat \<Rightarrow> real \<Rightarrow> real \<Rightarrow> real list" where
  "simple_matmul A B C M K N alpha beta =
     fold (\<lambda>m C.
        fold (\<lambda>n C.
           let sum = fold (\<lambda>k sum. sum + A ! (m * K + k) * B ! (k * N + n)) [0..<K] 0
           in C[m * N + n := alpha * sum + beta * C ! (m * N + n)])
         [0..<N] C)
      [0..<M] C"

text \<open>
  The fallback loop of \<open>GemmRef::matvec\<close>, after its shape checks, in the arithmetic
  \<open>rnd\<close>. The old \<open>y_data[m]\<close> is read and multiplied by \<open>beta\<close> also when \<open>beta\<close> is 0.
\<close>

definition GemmRef_matvec ::
  "(real \<Rightarrow> float) \<Rightarrow> float list \<Rightarrow> float list \<Rightarrow> float list \<Rightarrow> nat \<Rightarrow> nat \<Rightarrow> float \<Rightarrow> float
     \<Rightarrow> float list" where
  "GemmRef_matvec rnd A_data x_data y_data M K alpha beta =
     fold (\<lambda>m y_data.
        let sum = fold (\<lambda>k sum. fadd rnd sum (fmul rnd (A_data ! (m * K + k)) (x_data ! k)))
                    [0..<K] (Finite 0)
        in y_data[m := fadd rnd (fmul rnd alpha sum) (fmul rnd beta (y_data ! m))])
      [0..<M] y_data"

definition validate_shapes :: "'a Tensor \<Rightarrow> 'b Tensor \<Rightarrow> 'c Tensor \<Rightarrow> error + unit" where
  "validate_shapes A B C =
     (let shape_A = shape A; shape_B = shape B; shape_C = shape C
      in if length shape_A \<noteq> 2 \<or> length shape_B \<noteq> 2 \<or> length shape_C \<noteq> 2
         then Inl (runtime_error ''GEMM requires 2D tensors'')
         else if shape_A ! 1 \<noteq> shape_B ! 0
         then Inl (runtime_error ''Matrix dimensions don't match for multiplication'')
         else if shape_A ! 0 \<noteq> shape_C ! 0 \<or> shape_B ! 1 \<noteq> shape_C ! 1
         then Inl (runtime_error ''Output matrix dimensions don't match'')
         else Inr ())"


section \<open>Vectorised GEMM (simd_gemm.cpp)\<close>

text \<open>
  A \<open>__m256\<close> register is a list of eight lanes. \<open>_mm256_loadu_ps(&p[i])\<close> loads the eight
  consecutive elements \<open>p[i], \<dots>, p[i + 7]\<close>; \<open>_mm256_fmadd_ps(a, b, c)\<close> is \<open>a * b + c\<close>
  lane by lane.
\<close>

definition mm256_setzero_ps :: "real list" where
  "mm256_setzero_ps = replicate 8 0"

definition mm256_loadu_ps :: "real list \<Rightarrow> nat \<Rightarrow> real list" where
  "mm256_loadu_ps p i = map (\<lambda>j. p ! (i + j)) [0..<8]"

definition mm256_fmadd_ps :: "real list \<Rightarrow> real list \<Rightarrow> real list \<Rightarrow> real list" where
  "mm256_fmadd_ps a b c = map (\<lambda>j. a ! j * b ! j + c ! j) [0..<8]"

text \<open>The values of a counter that starts at 0 and advances by \<open>step\<close> while below \<open>X\<close>.\<close>

definition block_starts :: "nat \<Rightarrow> nat \<Rightarrow> nat list" where
  "block_starts step X = map (\<lambda>i. i * step) [0..<(X + step - 1) div step]"

text \<open>
  The body of the two innermost loops: one output cell \<open>(mm, nn)\<close> for one block of the
  \<open>k\<close> dimension that starts at \<open>k\<close>. The vector loop runs while \<open>kk + 8 \<le> k_end\<close>, the
  scalar loop finishes the block.
\<close>

definition avx2_cell ::
  "real list \<Rightarrow> real list \<Rightarrow> real list \<Rightarrow> nat \<Rightarrow> nat \<Rightarrow> real \<Rightarrow> real \<Rightarrow> nat \<Rightarrow> nat \<Rightarrow> nat
     \<Rightarrow> real list" where
  "avx2_cell A B C K N alpha beta k mm nn =
     (let k_end = min (k + 8) K;
          chunks = (k_end - k) div 8;
          sum = fold (\<lambda>kk sum.
                   let a_vec = mm256_loadu_ps A (mm * K + kk);
                       b_vec = mm256_loadu_ps B (kk * N + nn)
                   in mm256_fmadd_ps a_vec b_vec sum)
                 (map (\<lambda>i. k + 8 * i) [0..<chunks]) mm256_setzero_ps;
          kk = k + 8 * chunks;
          sum_scalar = fold (\<lambda>kk s. s + A ! (mm * K + kk) * B ! (kk * N + nn)) [kk..<k_end] 0;
          total_sum = fold (\<lambda>i total_sum. total_sum + sum ! i) [0..<8] sum_scalar
      in C[mm * N + nn := alpha * total_sum + beta * C ! (mm * N + nn)])"

definition matmul_avx2_f32 ::
  "real list \<Rightarrow> real list \<Rightarrow> real list \<Rightarrow> nat \<Rightarrow> nat \<Rightarrow> nat \<Rightarrow> real \<Rightarrow> real \<Rightarrow> real list" where
  "matmul_avx2_f32 A B C M K N alpha beta =
     fold (\<lambda>m C.
        fold (\<lambda>n C.
           fold (\<lambda>k C.
              fold (\<lambda>mm C.
                 fold (\<lambda>nn C. avx2_cell A B C K N alpha beta k mm nn)
                  [n..<min (n + 8) N] C)
               [m..<min (m + 8) M] C)
            (block_starts 8 K) C)
         (block_starts 8 N) C)
      (block_starts 8 M) C"

section \<open>Causal attention (flash_attention.hpp, flash_attention.cpp, transformer.hpp)\<close>

text \<open>An \<open>int\<close> used as a loop bound: a negative bound runs no iteration.\<close>

definition bound :: "c_int \<Rightarrow> nat" where
  "bound n = nat (sint n)"

subsection \<open>The loop nest of \<open>compute_attention\<close>\<close>

text \<open>The dot product \<open>Q[s] * K[t]\<close> of batch element \<open>b\<close>.\<close>

definition dot_product ::
  "real list \<Rightarrow> real list \<Rightarrow> nat \<Rightarrow> nat \<Rightarrow> nat \<Rightarrow> nat \<Rightarrow> nat \<Rightarrow> real" where
  "dot_product q_data k_data seq_len head_dim b s t =
     fold (\<lambda>d score.
        let q_idx = b * seq_len * head_dim + s * head_dim + d;
            k_idx = b * seq_len * head_dim + t * head_dim + d
        in score + q_data ! q_idx * k_data ! k_idx)
      [0..<head_dim] 0"

text \<open>
  \<open>max_score\<close> starts at minus infinity, which is \<open>None\<close>; \<open>std::max\<close> against it yields
  the score.
\<close>

definition std_max :: "real option \<Rightarrow> real \<Rightarrow> real option" where
  "std_max max_score score =
     (case max_score of None \<Rightarrow> Some score | Some m \<Rightarrow> Some (if m < score then score else m))"

text \<open>First loop over \<open>t \<le> s\<close>: the scaled scores and their running maximum.\<close>

definition score_loop ::
  "real \<Rightarrow> real list \<Rightarrow> real list \<Rightarrow> nat \<Rightarrow> nat \<Rightarrow> nat \<Rightarrow> nat \<Rightarrow> real list \<times> real option" where
  "score_loop scl q_data k_data seq_len head_dim b s =
     fold (\<lambda>t (scores, max_score).
        let score = dot_product q_data k_data seq_len head_dim b s t * scl
        in (scores[t := score], std_max max_score score))
      [0..<Suc s] (replicate seq_len 0, None)"

text \<open>
  Second loop: exponentials of the shifted scores and their sum. The window holds
  \<open>t = 0\<close>, so the maximum is a number when this loop runs (lemma \<open>score_loop_eq\<close>);
  the case \<open>None\<close> stands for the subtraction of minus infinity, which never happens.
\<close>

definition exp_loop :: "real list \<Rightarrow> real option \<Rightarrow> nat \<Rightarrow> real list \<times> real" where
  "exp_loop scores max_score s =
     (case max_score of
        None \<Rightarrow> (scores, 0)
      | Some m \<Rightarrow>
          fold (\<lambda>t (scores, sum_exp).
             let e = exp (scores ! t - m)
             in (scores[t := e], sum_exp + e))
           [0..<Suc s] (scores, 0))"

text \<open>Third loop, under the guard \<open>sum_exp > 0\<close>.\<close>

definition normalize_loop :: "real list \<Rightarrow> real \<Rightarrow> nat \<Rightarrow> real list" where
  "normalize_loop scores sum_exp s =
     (if sum_exp > 0 then fold (\<lambda>t scores. scores[t := scores ! t / sum_exp]) [0..<Suc s] scores
      else scores)"

text \<open>The vector \<open>scores\<close> as the value loop reads it, for one \<open>(b, s)\<close>.\<close>

definition attention_scores ::
  "real \<Rightarrow> real list \<Rightarrow> real list \<Rightarrow> nat \<Rightarrow> nat \<Rightarrow> nat \<Rightarrow> nat \<Rightarrow> real list" where
  "attention_scores scl q_data k_data seq_len head_dim b s =
     (let (scores, max_score) = score_loop scl q_data k_data seq_len head_dim b s;
          (scores, sum_exp) = exp_loop scores max_score s
      in normalize_loop scores sum_exp s)"

text \<open>
  Fourth loop: for each \<open>d\<close> the weighted sum of the values over \<open>t \<le> s\<close>
  (\<open>weighted_sum_at\<close> is the inner loop), written to the output row.
\<close>

definition weighted_sum_at ::
  "real list \<Rightarrow> real list \<Rightarrow> nat \<Rightarrow> nat \<Rightarrow> nat \<Rightarrow> nat \<Rightarrow> nat \<Rightarrow> real" where
  "weighted_sum_at scores v_data seq_len head_dim b s d =
     fold (\<lambda>t weighted_sum.
        let v_idx = b * seq_len * head_dim + t * head_dim + d
        in weighted_sum + scores ! t * v_data ! v_idx)
      [0..<Suc s] 0"

definition weighted_sum_loop ::
  "real list \<Rightarrow> real list \<Rightarrow> real list \<Rightarrow> nat \<Rightarrow> nat \<Rightarrow> nat \<Rightarrow> nat \<Rightarrow> real list" where
  "weighted_sum_loop scores v_data output_data seq_len head_dim b s =
     fold (\<lambda>d output_data.
        let weighted_sum = weighted_sum_at scores v_data seq_len head_dim b s d;
            output_idx = b * seq_len * head_dim + s * head_dim + d
        in output_data[output_idx := weighted_sum])
      [0..<head_dim] output_data"

definition attention_loops ::
  "real \<Rightarrow> real list \<Rightarrow> real list \<Rightarrow> real list \<Rightarrow> real list \<Rightarrow> nat \<Rightarrow> nat \<Rightarrow> nat \<Rightarrow> real list" where
  "attention_loops scl q_data k_data v_data output_data batch_size seq_len head_dim =
     fold (\<lambda>b output_data.
        fold (\<lambda>s output_data.
           weighted_sum_loop (attention_scores scl q_data k_data seq_len head_dim b s)
             v_data output_data seq_len head_dim b s)
         [0..<seq_len] output_data)
      [0..<batch_size] output_data"

subsection \<open>The softmax of one row in binary32\<close>








subsection \<open>\<open>compute_attention\<close> and \<open>forward\<close>\<close>

text \<open>The fields \<open>keys\<close> and \<open>values\<close> of the cache are \<open>cache_keys\<close> and \<open>cache_values\<close>.\<close>

record KVCache =
  cache_keys :: "real Tensor list"
  cache_values :: "real Tensor list"
  current_length :: c_int

text \<open>The members \<open>hidden_size_\<close>, \<open>num_heads_\<close>, \<open>head_dim_\<close> and \<open>scale_\<close>.\<close>

record FlashAttention =
  hidden_size :: c_int
  num_heads :: c_int
  head_dim :: c_int
  scale :: real

text \<open>
  \<open>compute_attention\<close> takes the cache and never reads or writes it: the cache it leaves
  behind is the cache it was given. The model returns it beside the output.
\<close>

definition compute_attention ::
  "FlashAttention \<Rightarrow> real Tensor \<Rightarrow> real Tensor \<Rightarrow> real Tensor \<Rightarrow> real Tensor \<Rightarrow> KVCache option
     \<Rightarrow> error + real Tensor \<times> KVCache option" where
  "compute_attention fa Q K V output cache =
     (let shp = shape Q;
          batch_size = bound (shp ! 0); seq_len = bound (shp ! 1); hdim = bound (shp ! 2)
      in case data_float Q of Inl e \<Rightarrow> Inl e | Inr q_data \<Rightarrow>
         case data_float K of Inl e \<Rightarrow> Inl e | Inr k_data \<Rightarrow>
         case data_float V of Inl e \<Rightarrow> Inl e | Inr v_data \<Rightarrow>
         case data_float output of Inl e \<Rightarrow> Inl e | Inr output_data \<Rightarrow>
           Inr (output\<lparr>raw := attention_loops (scale fa) q_data k_data v_data output_data
                                 batch_size seq_len hdim\<rparr>,
                cache))"

text \<open>
  Head extraction: the three nested loops that copy the slice of one head out of the
  \<open>[batch, seq, hidden]\<close> inputs, with the source's bounds guard.
\<close>

definition extract_head ::
  "real list \<Rightarrow> real list \<Rightarrow> real list \<Rightarrow> nat \<Rightarrow> nat \<Rightarrow> nat \<Rightarrow> nat \<Rightarrow> nat \<Rightarrow> nat \<Rightarrow> nat
     \<Rightarrow> real list \<times> real list \<times> real list \<Rightarrow> real list \<times> real list \<times> real list" where
  "extract_head q_data k_data v_data query_numel head_numel batch_size seq_len hidden hdim head st =
     fold (\<lambda>b st.
        fold (\<lambda>s st.
           fold (\<lambda>d (q_head_data, k_head_data, v_head_data).
              let src_idx = b * seq_len * hidden + s * hidden + head * hdim + d;
                  dst_idx = b * seq_len * hdim + s * hdim + d
              in if src_idx < query_numel \<and> dst_idx < head_numel
                 then (q_head_data[dst_idx := q_data ! src_idx],
                       k_head_data[dst_idx := k_data ! src_idx],
                       v_head_data[dst_idx := v_data ! src_idx])
                 else (q_head_data, k_head_data, v_head_data))
            [0..<hdim] st)
         [0..<seq_len] st)
      [0..<batch_size] st"

definition copy_back ::
  "real list \<Rightarrow> real list \<Rightarrow> nat \<Rightarrow> nat \<Rightarrow> nat \<Rightarrow> nat \<Rightarrow> nat \<Rightarrow> nat \<Rightarrow> nat \<Rightarrow> real list" where
  "copy_back head_output_data output_data head_numel output_numel batch_size seq_len hidden hdim head =
     fold (\<lambda>b output_data.
        fold (\<lambda>s output_data.
           fold (\<lambda>d output_data.
              let src_idx = b * seq_len * hdim + s * hdim + d;
                  dst_idx = b * seq_len * hidden + s * hidden + head * hdim + d
              in if src_idx < head_numel \<and> dst_idx < output_numel
                 then output_data[dst_idx := head_output_data ! src_idx]
                 else output_data)
            [0..<hdim] output_data)
         [0..<seq_len] output_data)
      [0..<batch_size] output_data"

text \<open>One iteration of the loop over heads.\<close>

definition head_step ::
  "FlashAttention \<Rightarrow> real Tensor \<Rightarrow> real Tensor \<Rightarrow> real Tensor \<Rightarrow> nat
     \<Rightarrow> real Tensor \<times> KVCache option \<Rightarrow> error + real Tensor \<times> KVCache option" where
  "head_step fa query key val head st =
     (let (output, cache) = st;
          q_shape = shape query;
          batch_size = bound (q_shape ! 0); seq_len = bound (q_shape ! 1);
          hidden = bound (q_shape ! 2); hdim = bound (head_dim fa);
          head_shape = [q_shape ! 0, q_shape ! 1, head_dim fa];
          Q_head = Tensor_f32 head_shape FP32;
          K_head = Tensor_f32 head_shape FP32;
          V_head = Tensor_f32 head_shape FP32
      in case data_float query of Inl e \<Rightarrow> Inl e | Inr q_data \<Rightarrow>
         case data_float key of Inl e \<Rightarrow> Inl e | Inr k_data \<Rightarrow>
         case data_float val of Inl e \<Rightarrow> Inl e | Inr v_data \<Rightarrow>
           (let (q_head_data, k_head_data, v_head_data) =
                  extract_head q_data k_data v_data (unat (numel query)) (unat (numel Q_head))
                    batch_size seq_len hidden hdim head (raw Q_head, raw K_head, raw V_head);
                head_output = Tensor_f32 head_shape FP32
            in case compute_attention fa (Q_head\<lparr>raw := q_head_data\<rparr>)
                      (K_head\<lparr>raw := k_head_data\<rparr>) (V_head\<lparr>raw := v_head_data\<rparr>)
                      head_output cache of
                 Inl e \<Rightarrow> Inl e
               | Inr (head_output, cache) \<Rightarrow>
                   Inr (output\<lparr>raw := copy_back (raw head_output) (raw output)
                                         (unat (numel head_output)) (unat (numel output))
                                         batch_size seq_len hidden hdim head\<rparr>,
                        cache)))"

definition forward ::
  "FlashAttention \<Rightarrow> real Tensor \<Rightarrow> real Tensor \<Rightarrow> real Tensor \<Rightarrow> KVCache option
     \<Rightarrow> error + real Tensor \<times> KVCache option" where
  "forward fa query key val cache =
     (let q_shape = shape query; k_shape = shape key; v_shape = shape val
      in if length q_shape \<noteq> 3 \<or> length k_shape \<noteq> 3 \<or> length v_shape \<noteq> 3
         then Inl (runtime_error ''FlashAttention requires 3D tensors [batch, seq, hidden]'')
         else if q_shape ! 0 \<noteq> k_shape ! 0 \<or> q_shape ! 0 \<noteq> v_shape ! 0
         then Inl (runtime_error ''Batch size mismatch in attention inputs'')
         else if q_shape ! 2 \<noteq> k_shape ! 2 \<or> q_shape ! 2 \<noteq> v_shape ! 2
         then Inl (runtime_error ''Hidden size mismatch in attention inputs'')
         else (let output_shape = [q_shape ! 0, q_shape ! 1, q_shape ! 2];
                   output = Tensor_f32 output_shape FP32
               in fold (\<lambda>head acc.
                     case acc of Inl e \<Rightarrow> Inl e | Inr st \<Rightarrow> head_step fa query key val head st)
                   [0..<bound (num_heads fa)] (Inr (output, cache))))"


section \<open>Arena pool (alloc.hpp, alloc.cpp)\<close>

text \<open>
  An address is a natural number and \<open>nullptr\<close> is \<open>None\<close>. The system heap is the next
  free address: \<open>AlignedAllocator::allocate\<close> returns a fresh aligned block and never
  fails. \<open>size_t\<close> arithmetic of the pool is on naturals. The linked list of chunks that
  starts at \<open>head_\<close> is the list \<open>head_chunks\<close>.
\<close>

record Chunk =
  chunk_data :: "nat option"
  chunk_size :: nat

record TensorPool =
  head_chunks :: "Chunk list"
  total_allocated :: nat
  total_used :: nat

definition AlignedAllocator_allocate :: "nat \<Rightarrow> nat \<Rightarrow> nat \<Rightarrow> nat option \<times> nat" where
  "AlignedAllocator_allocate heap sz alignment =
     (if sz = 0 then (None, heap)
      else (let ptr = ((heap + alignment - 1) div alignment) * alignment
            in (Some ptr, ptr + sz)))"

definition TensorPool_init :: "nat \<Rightarrow> nat \<Rightarrow> TensorPool \<times> nat" where
  "TensorPool_init heap initial_size =
     (let (p, heap) = AlignedAllocator_allocate heap initial_size 32
      in (\<lparr>head_chunks = [\<lparr>chunk_data = p, chunk_size = initial_size\<rparr>],
           total_allocated = initial_size, total_used = 0\<rparr>, heap))"

text \<open>
  The \<open>while\<close> loop of \<open>allocate\<close>: the first chunk with \<open>size >= sz\<close> and a non-null
  \<open>data\<close> is taken; a larger chunk is split, the remainder linked in behind it.
\<close>

fun first_fit :: "nat \<Rightarrow> Chunk list \<Rightarrow> (nat \<times> Chunk list) option" where
  "first_fit sz [] = None"
| "first_fit sz (current # rest) =
     (case chunk_data current of
        Some result \<Rightarrow>
          (if chunk_size current \<ge> sz
           then Some (result,
                  \<lparr>chunk_data = None, chunk_size = 0\<rparr> #
                  (if chunk_size current > sz
                   then [\<lparr>chunk_data = Some (result + sz), chunk_size = chunk_size current - sz\<rparr>]
                   else []) @ rest)
           else map_option (\<lambda>(r, cs). (r, current # cs)) (first_fit sz rest))
      | None \<Rightarrow> map_option (\<lambda>(r, cs). (r, current # cs)) (first_fit sz rest))"

text \<open>
  \<open>allocate\<close> calls itself after linking a new chunk in. The recursion is bounded by
  fuel; \<open>None\<close> is a recursion that has not returned within it.
\<close>

fun allocate :: "nat \<Rightarrow> nat \<Rightarrow> TensorPool \<times> nat \<Rightarrow> (nat \<times> TensorPool \<times> nat) option" where
  "allocate 0 sz st = None"
| "allocate (Suc fuel) sz (pool, heap) =
     (case first_fit sz (head_chunks pool) of
        Some (result, cs) \<Rightarrow>
          Some (result, pool\<lparr>head_chunks := cs, total_used := total_used pool + sz\<rparr>, heap)
      | None \<Rightarrow>
          (let new_size = max sz (total_allocated pool div 2);
               (p, heap) = AlignedAllocator_allocate heap new_size 32;
               new_chunk = \<lparr>chunk_data = p, chunk_size = new_size\<rparr>
           in allocate fuel sz
                (pool\<lparr>head_chunks := new_chunk # head_chunks pool,
                      total_allocated := total_allocated pool + new_size\<rparr>, heap)))"

definition reset :: "TensorPool \<Rightarrow> TensorPool" where
  "reset pool =
     pool\<lparr>head_chunks := map (\<lambda>current. current\<lparr>chunk_data := None, chunk_size := 0\<rparr>) (head_chunks pool),
          total_used := 0\<rparr>"

text \<open>
  A chunk is free when \<open>allocate\<close> can hand it out: its \<open>data\<close> is not null. A chunk that
  was handed out has \<open>data = nullptr\<close> and \<open>size = 0\<close>.
\<close>

definition chunk_free :: "Chunk \<Rightarrow> bool" where
  "chunk_free c \<longleftrightarrow> chunk_data c \<noteq> None"


section \<open>Evaluation on concrete inputs\<close>

lemma replicate_numeral: "replicate (numeral k) x = x # replicate (pred_numeral k) x"
  by (simp add: numeral_eq_Suc)

lemmas codec_eval =
  pack_q4_rowwise_def dequantize_q4_rowwise_def memcpy_def even_upto_def
  quantize_def std_round_def int8_of_float_def min_int8_def max_int8_def nibble_at_def
  decode_q4_signed_def float_of_int8_def upt_rec

lemmas attention_eval =
  forward_def filled_def Tensor_f32_def calculate_numel_def multiplies_int_def bound_def
  head_step_def data_float_def extract_head_def compute_attention_def attention_loops_def
  attention_scores_def score_loop_def dot_product_def std_max_def exp_loop_def
  normalize_loop_def weighted_sum_loop_def weighted_sum_at_def copy_back_def upt_rec replicate_numeral

lemmas q4_f32_eval =
  matvec_q4_rowwise_def dequantize_q4_rowwise_f32_def GemmRef_matvec_def nibble_at_def
  decode_q4_signed_def float_of_int8_def upt_rec Let_def




section \<open>binary32: rounding\<close>

text \<open>\<open>round_even\<close> is monotone across every integer, and leaves an integer alone.\<close>

lemma round_even_ge: "of_int n \<le> x \<Longrightarrow> n \<le> round_even x"
proof -
  assume "of_int n \<le> x"
  then have "n \<le> \<lfloor>x\<rfloor>" by (simp add: le_floor_iff)
  then show ?thesis by (auto simp: round_even_def Let_def)
qed

lemma round_even_le: "x \<le> of_int n \<Longrightarrow> round_even x \<le> n"
proof (cases "x = of_int n")
  case True
  then show ?thesis by (simp add: round_even_def)
next
  case False
  assume "x \<le> of_int n"
  with False have "x < of_int n" by simp
  then have "\<lfloor>x\<rfloor> < n" by (simp add: floor_less_iff)
  then show ?thesis by (auto simp: round_even_def Let_def)
qed

lemma round_even_of_int [simp]: "round_even (of_int n) = n"
  using round_even_ge [of n "of_int n"] round_even_le [of "of_int n" n] by simp

text \<open>The binade of a non-zero real.\<close>

lemma binade:
  assumes "x \<noteq> 0"
  shows "2 powr of_int \<lfloor>log 2 \<bar>x\<bar>\<rfloor> \<le> \<bar>x\<bar>" "\<bar>x\<bar> < 2 powr (of_int \<lfloor>log 2 \<bar>x\<bar>\<rfloor> + 1)"
  using assms floor_log_eq_powr_iff [of "\<bar>x\<bar>" 2 "\<lfloor>log 2 \<bar>x\<bar>\<rfloor>"] by simp_all


lemma floor_log_nonneg:
  assumes "1 \<le> x"
  shows "0 \<le> \<lfloor>log 2 x\<rfloor>"
proof -
  have "0 \<le> log 2 x" using assms by simp
  then show ?thesis by simp
qed

lemma powr_neg_int_inverse:
  assumes "e \<le> 0"
  shows "(2::real) powr of_int e * 2 ^ nat (- e) = 1"
proof -
  have "(2::real) powr of_int (- e) = 2 ^ nat (- e)"
    using assms powr_real_of_int [of 2 "- e"] by simp
  moreover have "(2::real) powr of_int e * 2 powr of_int (- e) = 1"
    by (simp add: powr_minus)
  ultimately show ?thesis by simp
qed






lemma round32_0: "round32 0 = Finite 0"
  by (simp add: round32_def)

text \<open>
  Evaluation of \<open>round32\<close>: once the binade of \<open>x\<close> is known, the result is a closed
  expression; an integer below \<open>2 ^ 24\<close> in magnitude is a binary32 value; at \<open>2 ^ 128\<close>
  and above the result is \<open>+\<infinity>\<close>.
\<close>

lemma ulp_exponent_binade:
  assumes "2 powr of_int E \<le> \<bar>x\<bar>" "\<bar>x\<bar> < 2 powr (of_int E + 1)"
  shows "ulp_exponent x = max E (- 126) - 23"
proof -
  have "0 < (2::real) powr of_int E" by simp
  with assms(1) have "0 < \<bar>x\<bar>" by linarith
  then have "\<lfloor>log 2 \<bar>x\<bar>\<rfloor> = E"
    using assms floor_log_eq_powr_iff [of "\<bar>x\<bar>" 2 E] by simp
  then show ?thesis by (simp add: ulp_exponent_def)
qed

lemma round32_binade:
  assumes "2 powr of_int E \<le> \<bar>x\<bar>" "\<bar>x\<bar> < 2 powr (of_int E + 1)"
  shows "round32 x =
           (let u = 2 powr of_int (max E (- 126) - 23); y = of_int (round_even (x / u)) * u
            in if 2 ^ 128 \<le> \<bar>y\<bar> then (if 0 < x then PInf else NInf) else Finite y)"
proof -
  have "0 < (2::real) powr of_int E" by simp
  with assms(1) have "x \<noteq> 0" by auto
  then show ?thesis
    by (simp add: round32_def ulp_exponent_binade [OF assms])
qed

lemma round32_ge_powr:
  assumes "2 powr of_int k \<le> x" "- 126 \<le> k"
  shows "round32 x = PInf \<or> (\<exists>y. round32 x = Finite y \<and> 2 powr of_int k \<le> y)"
proof -
  define E where "E = \<lfloor>log 2 \<bar>x\<bar>\<rfloor>"
  define u :: real where "u = 2 powr of_int (E - 23)"
  define y where "y = of_int (round_even (x / u)) * u"
  have "0 < (2::real) powr of_int k" by simp
  with assms(1) have "0 < x" by linarith
  then have x: "0 < x" "x \<noteq> 0" "\<bar>x\<bar> = x" by simp_all
  have "of_int k \<le> log 2 x" using assms(1) x by (simp add: le_log_iff)
  then have E: "k \<le> E" using x by (simp add: E_def le_floor_iff)
  then have e: "ulp_exponent x = E - 23" using assms(2) by (simp add: ulp_exponent_def E_def)
  have u: "0 < u" by (simp add: u_def)
  have lo: "2 powr of_int E \<le> x" using binade(1) [of x] x by (simp add: E_def)
  have "2 powr of_int E / u = 2 powr 23"
    by (simp add: u_def powr_diff)
  also have "\<dots> = of_int (2 ^ 23)" by simp
  finally have "of_int (2 ^ 23) \<le> x / u"
    using lo u by (metis divide_right_mono less_imp_le)
  then have "2 ^ 23 \<le> round_even (x / u)" by (rule round_even_ge)
  then have "of_int (2 ^ 23) * u \<le> y"
    unfolding y_def using u by (simp add: mult_right_mono del: of_int_power of_int_numeral)
  moreover have "of_int (2 ^ 23) * u = 2 powr of_int E"
    by (simp add: u_def powr_diff)
  ultimately have "2 powr of_int E \<le> y" by simp
  moreover have "(2::real) powr of_int k \<le> 2 powr of_int E" using E by (intro powr_mono) simp_all
  ultimately have y1: "2 powr of_int k \<le> y" by (rule order_trans [rotated])
  have "round32 x = (if 2 ^ 128 \<le> \<bar>y\<bar> then PInf else Finite y)"
    using x e by (simp add: round32_def Let_def y_def u_def)
  then show ?thesis using y1 by auto
qed

lemma round32_Finite_bound:
  assumes "round32 x = Finite y"
  shows "\<bar>y\<bar> < 2 ^ 128"
  using assms by (auto simp: round32_def Let_def split: if_splits)

lemma round32_overflow:
  assumes "2 ^ 128 \<le> x"
  shows "round32 x = PInf"
proof -
  have "(2::real) powr of_int 128 = 2 ^ 128" by simp
  then have "2 powr of_int 128 \<le> x" using assms by simp
  from round32_ge_powr [OF this]
  consider "round32 x = PInf" | y where "round32 x = Finite y" "2 powr of_int 128 \<le> y" by auto
  then show ?thesis
  proof cases
    case 1
    then show ?thesis .
  next
    case 2
    from round32_Finite_bound [OF 2(1)] 2(2) show ?thesis by simp
  qed
qed

lemma round32_integer:
  assumes "x \<in> \<int>" "\<bar>x\<bar> < 2 ^ 24"
  shows "round32 x = Finite x"
proof (cases "x = 0")
  case True
  then show ?thesis by (simp add: round32_def)
next
  case False
  from assms(1) obtain n :: int where n: "x = of_int n" by (auto elim: Ints_cases)
  define e where "e = ulp_exponent x"
  define u :: real where "u = 2 powr of_int e"
  define N :: int where "N = 2 ^ nat (- e)"
  have "1 \<le> \<bar>n\<bar>" using False n by auto
  then have x1: "1 \<le> \<bar>x\<bar>" using n by (metis of_int_1_le_iff of_int_abs)
  have E0: "0 \<le> \<lfloor>log 2 \<bar>x\<bar>\<rfloor>" using floor_log_nonneg [OF x1] .
  have "\<bar>x\<bar> < 2 powr 24" using assms(2) by simp
  then have "log 2 \<bar>x\<bar> < 24" using x1 by (simp add: log_less_iff)
  then have "\<lfloor>log 2 \<bar>x\<bar>\<rfloor> < 24" by (simp add: floor_less_iff)
  then have e: "e \<le> 0" using E0 by (simp add: e_def ulp_exponent_def)
  have u: "0 < u" by (simp add: u_def)
  have uN: "u * of_int N = 1" using powr_neg_int_inverse [OF e] by (simp add: u_def N_def)
  then have "x / u = x * of_int N" using u by (simp add: field_simps)
  then have "x / u = of_int (n * N)" by (simp add: n)
  then have "round_even (x / u) = n * N" by (simp only: round_even_of_int)
  then have "of_int (round_even (x / u)) * u = x" using uN by (simp add: n mult.assoc mult.commute [of _ u])
  moreover have "\<bar>x\<bar> < 2 ^ 128"
  proof -
    have "\<bar>x\<bar> < 2 ^ 24" by fact
    also have "(2::real) ^ 24 < 2 ^ 128" by simp
    finally show ?thesis .
  qed
  ultimately show ?thesis
    using False by (simp add: round32_def Let_def u_def e_def)
qed

text \<open>
  The error of one rounding that does not overflow: half a unit in the last place, which
  is at most \<open>2 ^ -24\<close> of the magnitude in the normal range and \<open>2 ^ -150\<close> in the
  subnormal range.
\<close>

lemma round_even_error: "\<bar>of_int (round_even z) - z\<bar> \<le> 1 / 2"
proof -
  have "of_int \<lfloor>z\<rfloor> \<le> z" "z < of_int \<lfloor>z\<rfloor> + 1" by linarith+
  then show ?thesis by (auto simp: round_even_def Let_def)
qed

lemma round32_error:
  assumes "round32 x = Finite y"
  shows "\<bar>y - x\<bar> \<le> \<bar>x\<bar> / 2 ^ 24 + 1 / 2 ^ 150"
proof (cases "x = 0")
  case True
  then show ?thesis using assms by (simp add: round32_def)
next
  case False
  define E where "E = \<lfloor>log 2 \<bar>x\<bar>\<rfloor>"
  define U :: real where "U = 2 powr of_int (max E (- 126) - 23)"
  have U: "0 < U" by (simp add: U_def)
  have y: "y = of_int (round_even (x / U)) * U"
    using assms False by (simp add: round32_def Let_def U_def E_def ulp_exponent_def split: if_splits)
  have "\<bar>y - x\<bar> = \<bar>of_int (round_even (x / U)) - x / U\<bar> * U"
  proof -
    have "y - x = (of_int (round_even (x / U)) - x / U) * U"
      using U by (simp add: y field_simps)
    then show ?thesis using U by (simp add: abs_mult)
  qed
  also have "\<dots> \<le> 1 / 2 * U"
    using round_even_error [of "x / U"] U by (intro mult_right_mono) simp_all
  finally have half: "\<bar>y - x\<bar> \<le> U / 2" by simp
  show ?thesis
  proof (cases "- 126 \<le> E")
    case True
    then have "U = 2 powr of_int E / 2 powr 23" by (simp add: U_def powr_diff)
    moreover have "2 powr of_int E \<le> \<bar>x\<bar>" using binade(1) [OF False] by (simp add: E_def)
    ultimately have "U / 2 \<le> \<bar>x\<bar> / 2 ^ 24" by (simp add: field_simps)
    moreover have "(0::real) \<le> 1 / 2 ^ 150" by simp
    ultimately show ?thesis using half by linarith
  next
    case False
    then have "U = 2 powr (- 149)" by (simp add: U_def max_def)
    then have "U / 2 = 1 / 2 ^ 150" by (simp add: powr_neg_numeral)
    with half have "\<bar>y - x\<bar> \<le> 1 / 2 ^ 150" by (simp only:)
    moreover have "0 \<le> \<bar>x\<bar> / 2 ^ 24" by simp
    ultimately show ?thesis by linarith
  qed
qed

text \<open>A value that \<open>round32\<close> returns is a binary32 value: rounding it again changes nothing.\<close>

lemma round32_on_grid:
  assumes "x / 2 powr of_int (ulp_exponent x) \<in> \<int>" "\<bar>x\<bar> < 2 ^ 128"
  shows "round32 x = Finite x"
proof (cases "x = 0")
  case True
  then show ?thesis by (simp add: round32_def)
next
  case False
  define U :: real where "U = 2 powr of_int (ulp_exponent x)"
  have U: "0 < U" by (simp add: U_def)
  from assms(1) obtain k :: int where k: "x / U = of_int k" by (auto simp: U_def elim: Ints_cases)
  then have "round_even (x / U) = k" by (simp only: round_even_of_int)
  moreover have "of_int k * U = x" using k U by (simp add: field_simps)
  ultimately have "of_int (round_even (x / U)) * U = x" by simp
  then show ?thesis
    using False assms(2) by (simp add: round32_def Let_def U_def)
qed

lemma powr_int_diff_Ints:
  assumes "e' \<le> e"
  shows "(2::real) powr of_int e / 2 powr of_int e' \<in> \<int>"
proof -
  have "(2::real) powr of_int e / 2 powr of_int e' = 2 powr of_int (e - e')"
    by (simp add: powr_diff)
  also have "\<dots> = 2 ^ nat (e - e')"
    using assms powr_real_of_int [of 2 "e - e'"] by simp
  finally show ?thesis by simp
qed

lemma round32_idem:
  assumes "round32 x = Finite y"
  shows "round32 y = Finite y"
proof (cases "x = 0 \<or> y = 0")
  case True
  then show ?thesis using assms by (auto simp: round32_def)
next
  case False
  then have x0: "x \<noteq> 0" and y0: "y \<noteq> 0" by simp_all
  define E where "E = \<lfloor>log 2 \<bar>x\<bar>\<rfloor>"
  define e where "e = max E (- 126) - 23"
  define U :: real where "U = 2 powr of_int e"
  define n where "n = round_even (x / U)"
  have U: "0 < U" by (simp add: U_def)
  have e149: "- 149 \<le> e" by (simp add: e_def)
  have y: "y = of_int n * U" and ybound: "\<bar>y\<bar> < 2 ^ 128"
    using assms x0
    by (simp_all add: round32_def Let_def U_def e_def E_def n_def ulp_exponent_def split: if_splits)
  have n0: "n \<noteq> 0" using y y0 by auto
  have "2 powr of_int (E - 23) \<le> U"
    unfolding U_def by (intro powr_mono) (simp_all add: e_def)
  moreover have "\<bar>x\<bar> < 2 powr of_int (E - 23) * 2 ^ 24"
  proof -
    have "\<bar>x\<bar> < 2 powr (of_int E + 1)" using binade(2) [OF x0] by (simp add: E_def)
    also have "(2::real) powr (of_int E + 1) = 2 powr of_int (E - 23) * 2 ^ 24"
    proof -
      have "(2::real) powr (of_int (E - 23) + 24) = 2 powr of_int (E - 23) * 2 powr 24"
        by (rule powr_add)
      moreover have "of_int (E - 23) + (24::real) = of_int E + 1" by simp
      ultimately show ?thesis by (simp add: add.commute)
    qed
    finally show ?thesis .
  qed
  ultimately have "\<bar>x\<bar> < U * 2 ^ 24"
  proof -
    assume lo: "2 powr real_of_int (E - 23) \<le> U"
      and hi: "\<bar>x\<bar> < 2 powr real_of_int (E - 23) * 2 ^ 24"
    have "2 powr real_of_int (E - 23) * 2 ^ 24 \<le> U * 2 ^ 24"
      using lo by (intro mult_right_mono) simp_all
    with hi show ?thesis by linarith
  qed
  then have "\<bar>x / U\<bar> < 2 ^ 24" using U by (simp add: field_simps abs_mult)
  then have "x / U \<le> 2 ^ 24" "- (2 ^ 24) \<le> x / U" by linarith+
  then have le: "x / U \<le> of_int (2 ^ 24)" and ge: "of_int (- (2 ^ 24)) \<le> x / U" by simp_all
  have "n \<le> 2 ^ 24" unfolding n_def using le by (rule round_even_le)
  moreover have "- (2 ^ 24) \<le> n" unfolding n_def using ge by (rule round_even_ge)
  ultimately have "n \<le> 2 ^ 24" "- (2 ^ 24) \<le> n" by simp_all
  then have n24: "\<bar>n\<bar> \<le> 2 ^ 24" by simp
  have absy: "\<bar>y\<bar> = of_int \<bar>n\<bar> * U" using U by (simp add: y abs_mult)
  have grid: "y / 2 powr of_int (ulp_exponent y) \<in> \<int>"
  proof (cases "\<bar>n\<bar> = 2 ^ 24")
    case True
    then have ay: "\<bar>y\<bar> = 2 powr of_int (e + 24)"
      by (simp add: absy U_def powr_add)
    then have "\<lfloor>log 2 \<bar>y\<bar>\<rfloor> = e + 24" by simp
    then have ue: "ulp_exponent y = e + 1" using e149 by (simp add: ulp_exponent_def)
    have "y / 2 powr of_int (e + 1) = of_int n * (2 powr of_int e / 2 powr (of_int e + 1))"
      by (simp add: y U_def)
    also have "\<dots> = of_int n / 2" by (simp add: powr_add)
    finally have q: "y / 2 powr of_int (ulp_exponent y) = of_int n / 2" by (simp add: ue)
    have "n = 2 ^ 24 \<or> n = - (2 ^ 24)" using True by linarith
    then have "real_of_int n / 2 = of_int (2 ^ 23) \<or> real_of_int n / 2 = of_int (- (2 ^ 23))"
      by auto
    then have "real_of_int n / 2 \<in> \<int>" by (metis Ints_of_int)
    then show ?thesis by (simp only: q)
  next
    case False
    then have "\<bar>n\<bar> < 2 ^ 24" using n24 by simp
    then have "of_int \<bar>n\<bar> < (2::real) ^ 24" by (metis of_int_less_numeral_power_cancel_iff)
    then have "\<bar>y\<bar> < 2 ^ 24 * U" using U by (simp add: absy)
    also have "\<dots> = 2 powr of_int (e + 24)" by (simp add: U_def powr_add)
    finally have "\<bar>y\<bar> < 2 powr of_int (e + 24)" .
    then have "log 2 \<bar>y\<bar> < of_int (e + 24)" using y0 by (simp add: log_less_iff)
    then have "\<lfloor>log 2 \<bar>y\<bar>\<rfloor> < e + 24" by (simp add: floor_less_iff)
    then have "ulp_exponent y \<le> e" using e149 by (simp add: ulp_exponent_def)
    from powr_int_diff_Ints [OF this]
    have "real_of_int n * (2 powr of_int e / 2 powr of_int (ulp_exponent y)) \<in> \<int>"
      by (intro Ints_mult) simp_all
    then show ?thesis by (simp add: y U_def)
  qed
  show ?thesis by (rule round32_on_grid [OF grid ybound])
qed

text \<open>A sum or a product is finite only if both operands are.\<close>

lemma fadd_FiniteD:
  assumes "fadd rnd a b = Finite z"
  shows "\<exists>x y. a = Finite x \<and> b = Finite y \<and> rnd (x + y) = Finite z"
  using assms by (cases a; cases b) simp_all

lemma fmul_FiniteD:
  assumes "fmul rnd a b = Finite z"
  shows "\<exists>x y. a = Finite x \<and> b = Finite y \<and> rnd (x * y) = Finite z"
  using assms by (cases a; cases b) (simp_all split: if_splits)

lemmas round32_eval =
  round32_0 round32_integer round32_overflow round_even_def powr_neg_numeral
  round32_binade [where E = "- 22"] round32_binade [where E = "- 5"]
  round32_binade [where E = "- 2"] round32_binade [where E = "- 1"]
  round32_binade [where E = 1] round32_binade [where E = 121]


section \<open>Tensor: element count and byte size\<close>

lemma ucast_scast_int: "(ucast (scast (w :: c_int) :: size_t) :: c_int) = w"
  by (rule bit_word_eqI) (auto simp: bit_simps)

lemma multiplies_int_scast: "multiplies_int (scast w) d = scast (w * d)"
  by (simp add: multiplies_int_def ucast_scast_int)

lemma fold_multiplies_int:
  "fold (\<lambda>d acc. multiplies_int acc d) shp (scast w) = scast (w * prod_list shp)"
  by (induction shp arbitrary: w) (simp_all add: multiplies_int_scast mult.assoc)

text \<open>The element count is the 32-bit product of the dimensions, sign-extended.\<close>

lemma calculate_numel_eq:
  assumes "shp \<noteq> []"
  shows "calculate_numel shp = scast (prod_list shp)"
  using assms fold_multiplies_int [of shp 1] by (simp add: calculate_numel_def)

lemma unat_prod_list:
  fixes ws :: "c_int list"
  assumes "prod_list (map unat ws) < 2 ^ 32"
  shows "unat (prod_list ws) = prod_list (map unat ws)"
  using assms
proof (induction ws)
  case Nil
  show ?case by simp
next
  case (Cons a ws)
  show ?case
  proof (cases "a = 0")
    case True
    then show ?thesis by simp
  next
    case False
    then have "1 \<le> unat a" by (simp add: unat_gt_0 Suc_leI)
    then have le: "prod_list (map unat ws) \<le> unat a * prod_list (map unat ws)" by simp
    have lt: "unat a * prod_list (map unat ws) < 2 ^ 32" using Cons.prems by simp
    from le lt have "prod_list (map unat ws) < 2 ^ 32" by (rule le_less_trans)
    then have "unat (prod_list ws) = prod_list (map unat ws)" by (rule Cons.IH)
    with lt show ?thesis by (simp add: unat_word_ariths)
  qed
qed

lemma unat_scast_small:
  fixes w :: c_int
  assumes "unat w < 2 ^ 31"
  shows "unat (scast w :: size_t) = unat w"
proof -
  have "int (unat w) < int (2 ^ 31)" using assms by (simp only: of_nat_less_iff)
  then have lt: "uint w < 2 ^ 31" by simp
  have "sint w = signed_take_bit 31 (uint w)"
    using sint_uint [of w] by simp
  also have "\<dots> = uint w"
    by (rule signed_take_bit_int_eq_self) (use lt uint_nonnegative [of w] in linarith)+
  finally have s: "sint w = uint w" .
  have "(scast w :: size_t) = ucast w"
    unfolding scast_eq ucast_eq s ..
  moreover have "uint (ucast w :: size_t) = uint w"
    by (rule uint_up_ucast) (simp add: is_up)
  then have "nat (uint (ucast w :: size_t)) = nat (uint w)" by (rule arg_cong)
  ultimately show ?thesis by simp
qed

text \<open>
  Where the product of the dimensions is below \<open>2 ^ 31\<close>, the element count is that
  product and the byte size follows the closed-form rule.
\<close>

lemma numel_below_2_31:
  assumes "shp \<noteq> []" "prod_list (map unat shp) < 2 ^ 31"
  shows "unat (calculate_numel shp) = prod_list (map unat shp)"
proof -
  have "prod_list (map unat shp) < 2 ^ 32" using assms(2) by simp
  then have p: "unat (prod_list shp) = prod_list (map unat shp)" by (rule unat_prod_list)
  then have "unat (prod_list shp) < 2 ^ 31" using assms(2) by simp
  then have "unat (scast (prod_list shp) :: size_t) = unat (prod_list shp)"
    by (rule unat_scast_small)
  with p show ?thesis by (simp add: calculate_numel_eq [OF assms(1)])
qed

lemma byte_size_below_2_31:
  assumes "unat n < 2 ^ 31"
  shows "unat (calculate_byte_size n FP32) = unat n * 4"
    and "unat (calculate_byte_size n FP16) = unat n * 2"
    and "unat (calculate_byte_size n INT8) = unat n"
    and "unat (calculate_byte_size n Q4) = (unat n + 1) div 2"
  using assms by (simp_all add: unat_word_ariths unat_div)

text \<open>
  C7. The claim: for every shape of non-negative dimensions, \<open>numel\<close> is the product of
  the dimensions and \<open>byte_size\<close> follows from it by the closed-form rule. The product is
  taken by \<open>std::multiplies<int>\<close>, so it is truncated to 32 bits at every step. For the
  shape \<open>[65536, 65536]\<close>, whose product is \<open>2 ^ 32\<close>, the tensor has \<open>numel = 0\<close> and,
  as INT8, \<open>byte_size = 0\<close>; for \<open>[46341, 46341]\<close> the 32-bit product is negative and is
  sign-extended into \<open>numel\<close>.
\<close>

theorem numel_wraps_at_32_bits:
  "numel (Tensor_bytes [65536, 65536] INT8) = 0 \<and>
   byte_size (Tensor_bytes [65536, 65536] INT8) = 0 \<and>
   unat (calculate_numel [46341, 46341]) = 2 ^ 64 - 2147479015"
  by (simp add: Tensor_bytes_def calculate_numel_def multiplies_int_def)


section \<open>Tensor: reshape\<close>

text \<open>
  What \<open>reshape\<close> does to a tensor that satisfies the class invariant: it throws when the
  element count of the new shape, as \<open>calculate_numel\<close> computes it, differs from the
  tensor's, and otherwise returns a tensor of the new shape with the same dtype, element
  count, byte size and bytes, again satisfying the invariant. The source tensor is an
  argument of a function and is not changed.
\<close>

lemma reshape_result:
  assumes "tensor_wf t"
  shows "(calculate_numel new_shape \<noteq> numel t \<longrightarrow>
            reshape t new_shape =
              Inl (runtime_error ''Cannot reshape: total elements don't match'')) \<and>
         (calculate_numel new_shape = numel t \<longrightarrow>
            (\<exists>r. reshape t new_shape = Inr r \<and> shape r = new_shape \<and> dtype r = dtype t \<and>
                 numel r = numel t \<and> byte_size r = byte_size t \<and> raw r = raw t \<and>
                 tensor_wf r))"
  using assms
  by (auto simp: reshape_def Tensor_bytes_def tensor_wf_def memcpy_def Let_def)

text \<open>
  C8. The claim: \<open>reshape\<close> fails when the element count of the new shape differs from
  the tensor's, and otherwise keeps the bytes in flat order, so that dequantizing the
  reshaped Q4 tensor yields the same sequence of values as dequantizing the original.
  The element counts are compared as 32-bit products: a tensor of shape \<open>[65536]\<close> is
  reshaped to \<open>[65537, 65536]\<close>, whose \<open>4295032832\<close> elements count as \<open>65536\<close>, and
  no exception is thrown. The bytes do survive a reshape, but \<open>dequantize_q4_rowwise\<close>
  picks the nibble by the parity of the column index: from the bytes \<open>0x21, 0x43, 0x65\<close>
  of a \<open>2 \<times> 3\<close> tensor it reads \<open>[1, 2, 3, 3, 6, 5]\<close>, and from the same bytes of the
  tensor reshaped to \<open>3 \<times> 2\<close> it reads \<open>[1, 2, 3, 4, 5, 6]\<close>.
\<close>

theorem reshape_wraps_and_reorders:
  "map_sum id shape (reshape (Tensor_bytes [65536] INT8) [65537, 65536]) = Inr [65537, 65536] \<and>
   dequantize_q4_rowwise (raw ((Tensor_bytes [2, 3] Q4)\<lparr>raw := [0x21, 0x43, 0x65]\<rparr>))
     [1, 1] [0, 0, 0, 0, 0, 0] 2 3 = [1, 2, 3, 3, 6, 5] \<and>
   map_sum id (\<lambda>r. dequantize_q4_rowwise (raw r) [1, 1, 1] [0, 0, 0, 0, 0, 0] 3 2)
     (reshape ((Tensor_bytes [2, 3] Q4)\<lparr>raw := [0x21, 0x43, 0x65]\<rparr>) [3, 2])
     = Inr [1, 2, 3, 4, 5, 6]"
proof -
  have "map_sum id shape (reshape (Tensor_bytes [65536] INT8) [65537, 65536]) = Inr [65537, 65536]"
    by (simp add: reshape_def Tensor_bytes_def calculate_numel_def multiplies_int_def)
  moreover have "dequantize_q4_rowwise (raw ((Tensor_bytes [2, 3] Q4)\<lparr>raw := [0x21, 0x43, 0x65]\<rparr>))
     [1, 1] [0, 0, 0, 0, 0, 0] 2 3 = [1, 2, 3, 3, 6, 5]"
    by (simp add: codec_eval)
  moreover have "map_sum id (\<lambda>r. dequantize_q4_rowwise (raw r) [1, 1, 1] [0, 0, 0, 0, 0, 0] 3 2)
     (reshape ((Tensor_bytes [2, 3] Q4)\<lparr>raw := [0x21, 0x43, 0x65]\<rparr>) [3, 2])
     = Inr [1, 2, 3, 4, 5, 6]"
    by (simp add: reshape_def Tensor_bytes_def calculate_numel_def multiplies_int_def codec_eval)
  ultimately show ?thesis by simp
qed


section \<open>Loops that fill an array block by block\<close>

text \<open>
  A counting loop whose iteration \<open>i\<close> writes only the cells
  \<open>off + i * w, \<dots>, off + (i + 1) * w - 1\<close>, each with a value \<open>F j\<close> that depends on
  the cell alone, fills the first \<open>n * w\<close> cells behind \<open>off\<close> with \<open>F\<close>.
\<close>

lemma fold_keeps_length:
  assumes "\<And>i xs. length (step i xs) = length xs"
  shows "length (fold step js xs) = length xs"
  using assms by (induction js arbitrary: xs) simp_all

lemma fold_blocks_nth:
  fixes step :: "nat \<Rightarrow> 'a list \<Rightarrow> 'a list"
  assumes len: "\<And>i xs. length (step i xs) = length xs"
    and own: "\<And>i xs j. i < n \<Longrightarrow> off + i * w \<le> j \<Longrightarrow> j < off + Suc i * w \<Longrightarrow> j < length xs
                \<Longrightarrow> step i xs ! j = F j"
    and other: "\<And>i xs j. i < n \<Longrightarrow> \<not> (off + i * w \<le> j \<and> j < off + Suc i * w)
                \<Longrightarrow> step i xs ! j = xs ! j"
  shows "j < length xs \<Longrightarrow>
           fold step [0..<n] xs ! j = (if off \<le> j \<and> j < off + n * w then F j else xs ! j)"
  using own other
proof (induction n)
  case 0
  then show ?case by auto
next
  case (Suc n)
  let ?ys = "fold step [0..<n] xs"
  have len_ys: "length ?ys = length xs"
    by (rule fold_keeps_length) (rule len)
  have IH: "?ys ! j = (if off \<le> j \<and> j < off + n * w then F j else xs ! j)"
    using Suc.IH [OF Suc.prems(1)] Suc.prems(2,3) by (simp add: less_Suc_eq)
  show ?case
  proof (cases "off + n * w \<le> j \<and> j < off + Suc n * w")
    case True
    then have "step n ?ys ! j = F j"
      using Suc.prems(2) [of n j ?ys] Suc.prems(1) len_ys by simp
    with True show ?thesis by simp
  next
    case False
    then have "step n ?ys ! j = ?ys ! j"
      using Suc.prems(3) [of n j ?ys] by simp
    with False IH show ?thesis by (auto simp: not_le)
  qed
qed

text \<open>A loop that writes one cell per iteration, at \<open>base + k\<close>.\<close>

lemma fold_cells_other:
  "\<not> (base \<le> j \<and> j < base + n) \<Longrightarrow>
     fold (\<lambda>k out. out[base + k := g k]) [0..<n] out ! j = out ! j"
  by (induction n) auto

lemma fold_cells_nth:
  assumes "j < length out"
  shows "fold (\<lambda>k out. out[base + k := g k]) [0..<n] out ! j =
           (if base \<le> j \<and> j < base + n then g (j - base) else out ! j)"
proof -
  have "fold (\<lambda>k out. out[base + k := g k]) [0..<n] out ! j =
          (if base \<le> j \<and> j < base + n * 1 then g (j - base) else out ! j)"
  proof (rule fold_blocks_nth [where w = 1 and off = base and F = "\<lambda>j. g (j - base)"])
    fix i j and xs :: "'a list"
    assume "i < n" "base + i * 1 \<le> j" "j < base + Suc i * 1" "j < length xs"
    then have "j = base + i" by simp
    with \<open>j < length xs\<close> show "xs[base + i := g i] ! j = g (j - base)" by simp
  next
    fix i j and xs :: "'a list"
    assume "\<not> (base + i * 1 \<le> j \<and> j < base + Suc i * 1)"
    then have "base + i \<noteq> j" by auto
    then show "xs[base + i := g i] ! j = xs ! j" by simp
  qed (use assms in simp_all)
  then show ?thesis by simp
qed


section \<open>Codec: the fused kernel\<close>

text \<open>Two nested counting loops that write cell \<open>m * K + k\<close> in iteration \<open>(m, k)\<close>.\<close>

lemma fold_rows_nth:
  fixes out :: "'a list"
  assumes "m < M" "k < K" "M * K \<le> length out"
  shows "fold (\<lambda>m out. fold (\<lambda>k out. out[m * K + k := g m k]) [0..<K] out) [0..<M] out
           ! (m * K + k) = g m k"
proof -
  define step where
    "step = (\<lambda>m (out :: 'a list). fold (\<lambda>k out. out[m * K + k := g m k]) [0..<K] out)"
  have len: "length (step i xs) = length xs" for i xs
    unfolding step_def by (rule fold_keeps_length) simp
  have below: "m * K + k < M * K"
  proof -
    have "m * K + k < Suc m * K" using assms(2) by simp
    also have "\<dots> \<le> M * K" using assms(1) by (intro mult_le_mono1) simp
    finally show ?thesis .
  qed
  then have j: "m * K + k < length out" using assms(3) by simp
  have "fold step [0..<M] out ! (m * K + k) =
          (if 0 \<le> m * K + k \<and> m * K + k < 0 + M * K
           then g ((m * K + k) div K) ((m * K + k) mod K) else out ! (m * K + k))"
  proof (rule fold_blocks_nth [where w = K and off = 0 and F = "\<lambda>j. g (j div K) (j mod K)"])
    show "length (step i xs) = length xs" for i xs by (rule len)
  next
    fix i j and xs :: "'a list"
    assume h: "i < M" "0 + i * K \<le> j" "j < 0 + Suc i * K" "j < length xs"
    then have d: "j div K = i"
      by (metis add_0 div_nat_eqI mult.commute)
    have "j mod K = j - i * K"
      using d by (metis minus_mult_div_eq_mod mult.commute)
    with h d show "step i xs ! j = g (j div K) (j mod K)"
      by (simp add: step_def fold_cells_nth)
  next
    fix i j and xs :: "'a list"
    assume "i < M" "\<not> (0 + i * K \<le> j \<and> j < 0 + Suc i * K)"
    then show "step i xs ! j = xs ! j"
      unfolding step_def by (intro fold_cells_other) (simp add: add.commute)
  qed (rule j)
  moreover have "(m * K + k) div K = m" "(m * K + k) mod K = k"
    using assms(2) by simp_all
  ultimately show ?thesis
    using below by (simp add: step_def)
qed

text \<open>A loop that replaces cell \<open>m\<close> in iteration \<open>m\<close> by a value computed from its old content.\<close>

lemma fold_update_nth:
  assumes "j < length y"
  shows "fold (\<lambda>m y. y[m := G m (y ! m)]) [0..<M] y ! j = (if j < M then G j (y ! j) else y ! j)"
proof (induction M)
  case 0
  show ?case by simp
next
  case (Suc M)
  let ?ys = "fold (\<lambda>m y. y[m := G m (y ! m)]) [0..<M] y"
  have len: "length ?ys = length y" by (rule fold_keeps_length) simp
  show ?case
  proof (cases "j = M")
    case True
    then show ?thesis using Suc.IH assms len by simp
  next
    case False
    then show ?thesis using Suc.IH by (simp add: less_Suc_eq)
  qed
qed

lemma fold_sum_scale:
  fixes c :: real
  shows "c * fold (\<lambda>k s. s + a k) ks s0 = fold (\<lambda>k s. s + a k * c) ks (c * s0)"
  by (induction ks arbitrary: s0) (simp_all add: algebra_simps)

text \<open>
  In exact arithmetic, and for finite scales, \<open>x\<close> and \<open>y\<close>, the fused kernel writes the
  same \<open>y\<close> as \<open>dequantize_q4_rowwise\<close> into a buffer of at least \<open>M * K\<close> cells
  followed by \<open>GemmRef::matvec\<close> with \<open>alpha = 1\<close> and \<open>beta = 0\<close>. The old \<open>y\<close> has to
  be finite because the dense path computes \<open>0 * y[m]\<close>, which is NaN for an infinite or
  NaN \<open>y[m]\<close>; the fused kernel does not read \<open>y\<close>.
\<close>

lemma isfinite_iff: "isfinite a \<longleftrightarrow> (\<exists>r. a = Finite r)"
  by (cases a) simp_all

lemma exact_dot:
  assumes "\<And>k. k \<in> set ks \<Longrightarrow> a k = Finite (ar k) \<and> c k = Finite (cr k)"
  shows "fold (\<lambda>k sum. fadd Finite sum (fmul Finite (a k) (c k))) ks (Finite s0) =
         Finite (fold (\<lambda>k s. s + ar k * cr k) ks s0)"
  using assms by (induction ks arbitrary: s0) simp_all

lemma fold_cong_invariant:
  assumes "P y"
    and "\<And>m y. m \<in> set ms \<Longrightarrow> P y \<Longrightarrow> f m y = g m y"
    and "\<And>m y. m \<in> set ms \<Longrightarrow> P y \<Longrightarrow> P (f m y)"
  shows "fold f ms y = fold g ms y"
  using assms
proof (induction ms arbitrary: y)
  case Nil
  show ?case by simp
next
  case (Cons m ms)
  have "fold f ms (f m y) = fold g ms (f m y)"
    using Cons.prems by (intro Cons.IH) simp_all
  moreover have "f m y = g m y" using Cons.prems by simp
  ultimately show ?case by simp
qed

lemma exact_fused_is_dense_path:
  assumes "M * K \<le> length out"
    and fs: "\<forall>m<M. isfinite (scales ! m)"
    and fx: "\<forall>k<K. isfinite (x ! k)"
    and fy: "list_all isfinite y"
  shows "matvec_q4_rowwise Finite qweights scales x y M K =
           GemmRef_matvec Finite (dequantize_q4_rowwise_f32 Finite qweights scales out M K)
             x y M K (Finite 1) (Finite 0)"
proof -
  let ?deq = "dequantize_q4_rowwise_f32 Finite qweights scales out M K"
  define nib where "nib = (\<lambda>m k. float_of_int8 (decode_q4_signed (nibble_at qweights K m k)))"
  define sr where "sr = (\<lambda>m. case scales ! m of Finite r \<Rightarrow> r | _ \<Rightarrow> 0)"
  define xr where "xr = (\<lambda>k. case x ! k of Finite r \<Rightarrow> r | _ \<Rightarrow> 0)"
  have s: "scales ! m = Finite (sr m)" if "m < M" for m
    using fs that by (auto simp: isfinite_iff sr_def)
  have x: "x ! k = Finite (xr k)" if "k < K" for k
    using fx that by (auto simp: isfinite_iff xr_def)
  have deq: "?deq ! (m * K + k) = Finite (nib m k * sr m)" if "m < M" "k < K" for m k
    unfolding dequantize_q4_rowwise_f32_def
    using fold_rows_nth [OF that assms(1), of "\<lambda>m k. fmul Finite (Finite (nib m k)) (scales ! m)"]
      s [OF that(1)] by (simp add: nib_def)
  have fused: "fold (\<lambda>k sum. fadd Finite sum (fmul Finite (Finite (nib m k)) (x ! k))) [0..<K] (Finite 0)
               = Finite (fold (\<lambda>k s. s + nib m k * xr k) [0..<K] 0)" for m
    by (rule exact_dot) (simp add: x)
  have dense: "fold (\<lambda>k sum. fadd Finite sum (fmul Finite (?deq ! (m * K + k)) (x ! k))) [0..<K] (Finite 0)
               = Finite (fold (\<lambda>k s. s + (nib m k * sr m) * xr k) [0..<K] 0)" if "m < M" for m
    by (rule exact_dot) (simp add: x deq that)
  have row: "sr m * fold (\<lambda>k s. s + nib m k * xr k) [0..<K] 0 =
             fold (\<lambda>k s. s + (nib m k * sr m) * xr k) [0..<K] 0" for m
  proof -
    have "(\<lambda>k s. s + nib m k * xr k * sr m) = (\<lambda>k s. s + (nib m k * sr m) * xr k)"
      by (intro ext) simp
    then show ?thesis
      using fold_sum_scale [of "sr m" "\<lambda>k. nib m k * xr k" "[0..<K]" 0] by simp
  qed
  show ?thesis
    unfolding matvec_q4_rowwise_def GemmRef_matvec_def
  proof (rule fold_cong_invariant [where P = "list_all isfinite"])
    show "list_all isfinite y" by (rule fy)
  next
    fix m and y :: "float list"
    assume m: "m \<in> set [0..<M]" and y: "list_all isfinite y"
    then have mM: "m < M" by simp
    show "(let sum = fold (\<lambda>k sum. fadd Finite sum
                       (fmul Finite (Finite (float_of_int8 (decode_q4_signed (nibble_at qweights K m k))))
                          (x ! k))) [0..<K] (Finite 0)
           in y[m := fmul Finite (scales ! m) sum]) =
          (let sum = fold (\<lambda>k sum. fadd Finite sum (fmul Finite (?deq ! (m * K + k)) (x ! k)))
                       [0..<K] (Finite 0)
           in y[m := fadd Finite (fmul Finite (Finite 1) sum) (fmul Finite (Finite 0) (y ! m))])"
    proof (cases "m < length y")
      case True
      then have "isfinite (y ! m)" using y by (simp add: list_all_length)
      then obtain r where "y ! m = Finite r" by (auto simp: isfinite_iff)
      then show ?thesis
        using fused [of m] dense [OF mM] row [of m] s [OF mM] by (simp add: nib_def)
    next
      case False
      then have "y[m := v] = y" for v by (simp add: list_update_beyond)
      then show ?thesis by (simp add: Let_def)
    qed
  next
    fix m and y :: "float list"
    assume m: "m \<in> set [0..<M]" and y: "list_all isfinite y"
    then have mM: "m < M" by simp
    have "list_all isfinite (y[m := Finite v])" for v
    proof -
      have "set (y[m := Finite v]) \<subseteq> insert (Finite v) (set y)"
        by (rule set_update_subset_insert)
      moreover have "\<forall>a \<in> insert (Finite v) (set y). isfinite a"
        using y by (simp add: list_all_iff)
      ultimately show ?thesis unfolding list_all_iff by blast
    qed
    then show "list_all isfinite
            (let sum = fold (\<lambda>k sum. fadd Finite sum
                       (fmul Finite (Finite (float_of_int8 (decode_q4_signed (nibble_at qweights K m k))))
                          (x ! k))) [0..<K] (Finite 0)
             in y[m := fmul Finite (scales ! m) sum])"
      using fused [of m] s [OF mM] by (simp add: nib_def)
  qed
qed

text \<open>
  The rounding error of a dot product accumulated term by term, with \<open>u = 2 ^ -24\<close> and
  \<open>\<eta> = 2 ^ -150\<close>: if the result is finite then so was every operand, and the result
  differs from the exact sum by at most \<open>(1 + u) ^ (K + 1) - 1\<close> times the sum of the
  magnitudes of the terms, plus \<open>3 * K * (1 + u) ^ K * \<eta>\<close> for underflow.
\<close>

lemma dot_error_step:
  fixes u \<eta> Q Ab Db c p t S Sb Tb :: real
  assumes u: "0 \<le> u" and eta: "0 \<le> \<eta>" and Q: "1 \<le> Q" and c: "0 \<le> c"
    and Dbound: "Db \<le> ((1 + u) * Q - 1) * Ab + c * Q * \<eta>"
    and p: "\<bar>p - t\<bar> \<le> u * \<bar>t\<bar> + \<eta>"
    and S: "\<bar>S - (Sb + p)\<bar> \<le> u * \<bar>Sb + p\<bar> + \<eta>"
    and Sbound: "\<bar>Sb - Tb\<bar> \<le> Db" and Tbound: "\<bar>Tb\<bar> \<le> Ab"
  shows "\<bar>S - (Tb + t)\<bar> \<le>
           ((1 + u) * ((1 + u) * Q) - 1) * (Ab + \<bar>t\<bar>) + (c + 3) * ((1 + u) * Q) * \<eta>"
proof -
  have absp: "\<bar>p\<bar> \<le> (1 + u) * \<bar>t\<bar> + \<eta>" using p by (simp add: algebra_simps)
  have absS0: "\<bar>Sb\<bar> \<le> Ab + Db" using Sbound Tbound by linarith
  have "\<bar>Sb + p\<bar> \<le> Ab + Db + (1 + u) * \<bar>t\<bar> + \<eta>" using absp absS0 by linarith
  then have "u * \<bar>Sb + p\<bar> \<le> u * (Ab + Db + (1 + u) * \<bar>t\<bar> + \<eta>)"
    using u by (rule mult_left_mono)
  then have 1: "\<bar>S - (Tb + t)\<bar> \<le> u * (Ab + Db + (1 + u) * \<bar>t\<bar> + \<eta>) + \<eta> + Db + u * \<bar>t\<bar> + \<eta>"
    using S Sbound p by linarith
  have 2: "(1 + u) * Db \<le> (1 + u) * (((1 + u) * Q - 1) * Ab + c * Q * \<eta>)"
    using Dbound u by (intro mult_left_mono) simp_all
  have 3: "0 \<le> (1 + u) * (1 + u) * (Q - 1) * \<bar>t\<bar>" using u Q by simp
  have "1 + u \<le> (1 + u) * Q" using u Q by (simp add: mult_le_cancel_left1)
  then have "0 \<le> (3 * ((1 + u) * Q) - (2 + u)) * \<eta>" using u eta by (intro mult_nonneg_nonneg) linarith+
  then have 4: "(2 + u) * \<eta> \<le> 3 * ((1 + u) * Q) * \<eta>" by (simp add: algebra_simps)
  have "u * (Ab + Db + (1 + u) * \<bar>t\<bar> + \<eta>) + \<eta> + Db + u * \<bar>t\<bar> + \<eta> =
        (1 + u) * Db + u * Ab + (u * (1 + u) + u) * \<bar>t\<bar> + (2 + u) * \<eta>"
    by (simp add: algebra_simps)
  also have "\<dots> \<le> (1 + u) * (((1 + u) * Q - 1) * Ab + c * Q * \<eta>) + u * Ab +
                    (u * (1 + u) + u) * \<bar>t\<bar> + 3 * ((1 + u) * Q) * \<eta>"
    using 2 4 by linarith
  also have "\<dots> = ((1 + u) * ((1 + u) * Q) - 1) * (Ab + \<bar>t\<bar>) + (c + 3) * ((1 + u) * Q) * \<eta>
                   - (1 + u) * (1 + u) * (Q - 1) * \<bar>t\<bar>"
    by (simp add: algebra_simps)
  also have "\<dots> \<le> ((1 + u) * ((1 + u) * Q) - 1) * (Ab + \<bar>t\<bar>) + (c + 3) * ((1 + u) * Q) * \<eta>"
    using 3 by linarith
  finally show ?thesis using 1 by linarith
qed

lemma dot_error:
  fixes u \<eta> :: real
  assumes ueq: "u = 1 / 2 ^ 24" and eeq: "\<eta> = 1 / 2 ^ 150"
    and run: "fold (\<lambda>k acc. fadd round32 acc (fmul round32 (fa k) (fb k))) [0..<K] (Finite 0)
              = Finite S"
  shows "(\<forall>k<K. isfinite (fa k) \<and> isfinite (fb k)) \<and> round32 S = Finite S \<and>
         \<bar>S - (\<Sum>k<K. real_of_float (fa k) * real_of_float (fb k))\<bar> \<le>
           ((1 + u) ^ Suc K - 1) * (\<Sum>k<K. \<bar>real_of_float (fa k) * real_of_float (fb k)\<bar>) +
           3 * real K * (1 + u) ^ K * \<eta>"
proof -
  have u0: "0 \<le> u" and e0: "0 \<le> \<eta>" by (simp_all add: ueq eeq)
  have rerr: "\<bar>y - x\<bar> \<le> u * \<bar>x\<bar> + \<eta>" if "round32 x = Finite y" for x y
    using round32_error [OF that] by (simp add: ueq eeq)
  let ?f = "\<lambda>k acc. fadd round32 acc (fmul round32 (fa k) (fb k))"
  let ?t = "\<lambda>k. real_of_float (fa k) * real_of_float (fb k)"
  show ?thesis
    using run
  proof (induction K arbitrary: S)
    case 0
    then have "S = 0" by simp
    then show ?case by (simp add: round32_0)
  next
    case (Suc K)
    from Suc.prems have "fadd round32 (fold ?f [0..<K] (Finite 0)) (fmul round32 (fa K) (fb K)) = Finite S"
      by simp
    from fadd_FiniteD [OF this] obtain S0 p where
      S0: "fold ?f [0..<K] (Finite 0) = Finite S0" and
      p: "fmul round32 (fa K) (fb K) = Finite p" and
      S: "round32 (S0 + p) = Finite S" by auto
    from fmul_FiniteD [OF p] obtain a b where
      ab: "fa K = Finite a" "fb K = Finite b" and rp: "round32 (a * b) = Finite p" by auto
    note IH = Suc.IH [OF S0]
    define A0 where "A0 = (\<Sum>k<K. \<bar>?t k\<bar>)"
    define T0 where "T0 = (\<Sum>k<K. ?t k)"
    define D0 where "D0 = ((1 + u) * (1 + u) ^ K - 1) * A0 + 3 * real K * (1 + u) ^ K * \<eta>"
    have fin: "\<forall>k<Suc K. isfinite (fa k) \<and> isfinite (fb k)"
      using IH ab by (auto simp: less_Suc_eq)
    have rep: "round32 S = Finite S" by (rule round32_idem [OF S])
    have Q: "1 \<le> (1 + u) ^ K" using u0 by (simp add: one_le_power)
    have "\<bar>S - (T0 + a * b)\<bar> \<le>
            ((1 + u) * ((1 + u) * (1 + u) ^ K) - 1) * (A0 + \<bar>a * b\<bar>) +
            (3 * real K + 3) * ((1 + u) * (1 + u) ^ K) * \<eta>"
    proof (rule dot_error_step [where Db = D0 and Sb = S0 and p = p])
      show "0 \<le> u" "0 \<le> \<eta>" "1 \<le> (1 + u) ^ K" "0 \<le> 3 * real K" using u0 e0 Q by simp_all
      show "D0 \<le> ((1 + u) * (1 + u) ^ K - 1) * A0 + 3 * real K * (1 + u) ^ K * \<eta>"
        by (simp add: D0_def)
      show "\<bar>p - a * b\<bar> \<le> u * \<bar>a * b\<bar> + \<eta>" by (rule rerr [OF rp])
      show "\<bar>S - (S0 + p)\<bar> \<le> u * \<bar>S0 + p\<bar> + \<eta>" by (rule rerr [OF S])
      show "\<bar>S0 - T0\<bar> \<le> D0" using IH by (simp add: D0_def T0_def A0_def)
      show "\<bar>T0\<bar> \<le> A0" unfolding T0_def A0_def by (rule sum_abs)
    qed
    moreover have "(\<Sum>k<Suc K. ?t k) = T0 + a * b" by (simp add: T0_def ab)
    moreover have "(\<Sum>k<Suc K. \<bar>?t k\<bar>) = A0 + \<bar>a * b\<bar>" by (simp add: A0_def ab)
    moreover have "(1 + u) ^ Suc (Suc K) = (1 + u) * ((1 + u) * (1 + u) ^ K)" by simp
    moreover have "3 * real (Suc K) * (1 + u) ^ Suc K = (3 * real K + 3) * ((1 + u) * (1 + u) ^ K)"
      by (simp add: algebra_simps)
    ultimately have "\<bar>S - (\<Sum>k<Suc K. ?t k)\<bar> \<le>
           ((1 + u) ^ Suc (Suc K) - 1) * (\<Sum>k<Suc K. \<bar>?t k\<bar>) +
           3 * real (Suc K) * (1 + u) ^ Suc K * \<eta>"
      by (simp only:)
    with fin rep show ?case by blast
  qed
qed

lemma fused_bound:
  fixes u \<eta> Q c A B S T s yf :: real
  assumes u: "0 \<le> u"
    and B: "B = ((1 + u) * Q - 1) * A + c * Q * \<eta>"
    and ST: "\<bar>S - T\<bar> \<le> B" and TA: "\<bar>T\<bar> \<le> A"
    and yf: "\<bar>yf - s * S\<bar> \<le> u * \<bar>s * S\<bar> + \<eta>"
  shows "\<bar>yf - s * T\<bar> \<le> ((1 + u) * ((1 + u) * Q) - 1) * (\<bar>s\<bar> * A) + (c * ((1 + u) * Q) * \<bar>s\<bar> + 1) * \<eta>"
proof -
  have "\<bar>S\<bar> \<le> A + B" using ST TA by linarith
  then have "\<bar>s\<bar> * \<bar>S\<bar> \<le> \<bar>s\<bar> * (A + B)" by (intro mult_left_mono) simp_all
  then have "u * \<bar>s * S\<bar> \<le> u * (\<bar>s\<bar> * (A + B))"
    using u by (simp add: abs_mult mult_left_mono)
  moreover have "\<bar>s * S - s * T\<bar> \<le> \<bar>s\<bar> * B"
  proof -
    have "\<bar>s * S - s * T\<bar> = \<bar>s\<bar> * \<bar>S - T\<bar>" by (simp add: abs_mult right_diff_distrib [symmetric])
    also have "\<dots> \<le> \<bar>s\<bar> * B" using ST by (intro mult_left_mono) simp_all
    finally show ?thesis .
  qed
  ultimately have "\<bar>yf - s * T\<bar> \<le> u * (\<bar>s\<bar> * (A + B)) + \<eta> + \<bar>s\<bar> * B"
    using yf by linarith
  also have "\<dots> = ((1 + u) * ((1 + u) * Q) - 1) * (\<bar>s\<bar> * A) + (c * ((1 + u) * Q) * \<bar>s\<bar> + 1) * \<eta>"
    by (simp add: B algebra_simps)
  finally show ?thesis .
qed

lemma dense_bound:
  fixes u \<eta> Q c A Ad Sd Td T s X :: real
  assumes u: "0 \<le> u" and Q: "1 \<le> Q"
    and Sd: "\<bar>Sd - Td\<bar> \<le> ((1 + u) * Q - 1) * Ad + c * Q * \<eta>"
    and Td: "\<bar>Td - s * T\<bar> \<le> u * (\<bar>s\<bar> * A) + \<eta> * X"
    and Ad: "Ad \<le> (1 + u) * (\<bar>s\<bar> * A) + \<eta> * X"
  shows "\<bar>Sd - s * T\<bar> \<le> ((1 + u) * ((1 + u) * Q) - 1) * (\<bar>s\<bar> * A) + ((1 + u) * Q * X + c * Q) * \<eta>"
proof -
  have "1 * 1 \<le> (1 + u) * Q" using u Q by (intro mult_mono) simp_all
  then have "1 \<le> (1 + u) * Q" by simp
  then have "0 \<le> (1 + u) * Q - 1" by simp
  then have "((1 + u) * Q - 1) * Ad \<le> ((1 + u) * Q - 1) * ((1 + u) * (\<bar>s\<bar> * A) + \<eta> * X)"
    using Ad by (rule mult_left_mono [rotated])
  then have "\<bar>Sd - s * T\<bar> \<le> ((1 + u) * Q - 1) * ((1 + u) * (\<bar>s\<bar> * A) + \<eta> * X) + c * Q * \<eta>
                             + (u * (\<bar>s\<bar> * A) + \<eta> * X)"
    using Sd Td by linarith
  also have "\<dots> = ((1 + u) * ((1 + u) * Q) - 1) * (\<bar>s\<bar> * A) + ((1 + u) * Q * X + c * Q) * \<eta>"
    by (simp add: algebra_simps)
  finally show ?thesis .
qed

text \<open>
  C2. The claim: for every packed buffer, scales and input vector the fused kernel
  \<open>matvec_q4_rowwise\<close> writes the same \<open>y\<close>, within a relative tolerance of \<open>1e-5\<close>, as
  \<open>dequantize_q4_rowwise\<close> followed by the dense matrix-vector product. The two paths
  round at different places (the fused kernel multiplies the row sum by the scale once,
  the dense path rounds \<open>nibble * scale\<close> for every element), so no tolerance relative to
  the result holds for every input; theorem \<open>fused_differs_from_dense_path\<close> below has
  the inputs. What holds is a tolerance relative to the magnitudes of the terms of the
  row: for every row \<open>m\<close> for which both paths return a finite \<open>y[m]\<close>, the scale of the
  row and the \<open>K\<close> elements of \<open>x\<close> are finite, and the two values differ by at most
  \<open>2 * ((1 + 2 ^ -24) ^ (K + 2) - 1)\<close> times
  \<open>|scales[m]| * (\<Sum>k. |nibble(m, k) * x[k]|)\<close>, plus a term for underflow that is a
  multiple of \<open>2 ^ -150\<close>. The dequantization buffer holds at least \<open>M * K\<close> cells.
\<close>

theorem fused_matvec_error_bound:
  assumes len: "M * K \<le> length out" and m: "m < M" "m < length y"
    and fused: "matvec_q4_rowwise round32 qweights scales x y M K ! m = Finite yf"
    and dense: "GemmRef_matvec round32
                  (dequantize_q4_rowwise_f32 round32 qweights scales out M K)
                  x y M K (Finite 1) (Finite 0) ! m = Finite yd"
  shows "isfinite (scales ! m) \<and> (\<forall>k<K. isfinite (x ! k)) \<and>
         \<bar>yf - yd\<bar> \<le>
           2 * ((1 + 1 / 2 ^ 24) ^ (K + 2) - 1) *
             (\<bar>real_of_float (scales ! m)\<bar> *
              (\<Sum>k<K. \<bar>float_of_int8 (decode_q4_signed (nibble_at qweights K m k)) *
                        real_of_float (x ! k)\<bar>)) +
           (1 + 1 / 2 ^ 24) ^ (K + 1) *
             (3 * real K * (\<bar>real_of_float (scales ! m)\<bar> + 1) +
              (\<Sum>k<K. \<bar>real_of_float (x ! k)\<bar>) + 1) / 2 ^ 150"
proof -
  define u :: real where "u = 1 / 2 ^ 24"
  define \<eta> :: real where "\<eta> = 1 / 2 ^ 150"
  define nib where "nib = (\<lambda>k. float_of_int8 (decode_q4_signed (nibble_at qweights K m k)))"
  define xr where "xr = (\<lambda>k. real_of_float (x ! k))"
  define A where "A = (\<Sum>k<K. \<bar>nib k * xr k\<bar>)"
  define X where "X = (\<Sum>k<K. \<bar>xr k\<bar>)"
  define T where "T = (\<Sum>k<K. nib k * xr k)"
  define Q where "Q = (1 + u) ^ K"
  define c where "c = 3 * real K"
  let ?deq = "dequantize_q4_rowwise_f32 round32 qweights scales out M K"
  let ?FS = "fold (\<lambda>k acc. fadd round32 acc (fmul round32 (Finite (nib k)) (x ! k))) [0..<K] (Finite 0)"
  let ?DS = "fold (\<lambda>k acc. fadd round32 acc (fmul round32 (?deq ! (m * K + k)) (x ! k))) [0..<K] (Finite 0)"
  have u0: "0 \<le> u" and e0: "0 \<le> \<eta>" by (simp_all add: u_def \<eta>_def)
  have Q1: "1 \<le> Q" unfolding Q_def using u0 by (simp add: one_le_power)
  have A0: "0 \<le> A" and X0: "0 \<le> X" by (simp_all add: A_def X_def sum_nonneg)
  have c0: "0 \<le> c" by (simp add: c_def)
  have rerr: "\<bar>b - a\<bar> \<le> u * \<bar>a\<bar> + \<eta>" if "round32 a = Finite b" for a b
    using round32_error [OF that] by (simp add: u_def \<eta>_def)
  have frow: "matvec_q4_rowwise round32 qweights scales x y M K ! m = fmul round32 (scales ! m) ?FS"
    using m
    by (simp add: matvec_q4_rowwise_def Let_def nib_def
          fold_update_nth [where G = "\<lambda>m v. fmul round32 (scales ! m)
             (fold (\<lambda>k sum. fadd round32 sum
                (fmul round32 (Finite (float_of_int8 (decode_q4_signed (nibble_at qweights K m k))))
                   (x ! k))) [0..<K] (Finite 0))"])
  from fused frow have "fmul round32 (scales ! m) ?FS = Finite yf" by simp
  from fmul_FiniteD [OF this] obtain s S where
    s: "scales ! m = Finite s" and S: "?FS = Finite S" and yf: "round32 (s * S) = Finite yf"
    by auto
  from dot_error [OF u_def \<eta>_def S]
  have xfin: "\<forall>k<K. isfinite (x ! k)"
    and ST: "\<bar>S - T\<bar> \<le> ((1 + u) * Q - 1) * A + c * Q * \<eta>"
    by (simp_all add: T_def A_def xr_def Q_def c_def)
  have TA: "\<bar>T\<bar> \<le> A" unfolding T_def A_def by (rule sum_abs)
  have F: "\<bar>yf - s * T\<bar> \<le>
             ((1 + u) * ((1 + u) * Q) - 1) * (\<bar>s\<bar> * A) + (c * ((1 + u) * Q) * \<bar>s\<bar> + 1) * \<eta>"
    by (rule fused_bound [OF u0 refl ST TA rerr [OF yf]])
  have drow: "GemmRef_matvec round32 ?deq x y M K (Finite 1) (Finite 0) ! m =
                fadd round32 (fmul round32 (Finite 1) ?DS) (fmul round32 (Finite 0) (y ! m))"
    using m
    by (simp add: GemmRef_matvec_def Let_def
          fold_update_nth [where G = "\<lambda>m v. fadd round32 (fmul round32 (Finite 1)
             (fold (\<lambda>k sum. fadd round32 sum (fmul round32 (?deq ! (m * K + k)) (x ! k)))
                [0..<K] (Finite 0))) (fmul round32 (Finite 0) v)"])
  from dense drow
  have "fadd round32 (fmul round32 (Finite 1) ?DS) (fmul round32 (Finite 0) (y ! m)) = Finite yd"
    by simp
  from fadd_FiniteD [OF this] obtain v w where
    v: "fmul round32 (Finite 1) ?DS = Finite v" and
    w: "fmul round32 (Finite 0) (y ! m) = Finite w" and
    yd: "round32 (v + w) = Finite yd" by auto
  from fmul_FiniteD [OF v] obtain Sd where
    Sd: "?DS = Finite Sd" and v1: "round32 (1 * Sd) = Finite v" by auto
  from fmul_FiniteD [OF w] have "round32 0 = Finite w" by auto
  then have w0: "w = 0" by (simp add: round32_0)
  define a where "a = (\<lambda>k. real_of_float (?deq ! (m * K + k)))"
  define Td where "Td = (\<Sum>k<K. a k * xr k)"
  define Ad where "Ad = (\<Sum>k<K. \<bar>a k * xr k\<bar>)"
  from dot_error [OF u_def \<eta>_def Sd]
  have dfin: "\<forall>k<K. isfinite (?deq ! (m * K + k))"
    and rep: "round32 Sd = Finite Sd"
    and SdTd: "\<bar>Sd - Td\<bar> \<le> ((1 + u) * Q - 1) * Ad + c * Q * \<eta>"
    by (simp_all add: Td_def Ad_def a_def xr_def Q_def c_def)
  have "v = Sd" using v1 rep by simp
  then have ydS: "yd = Sd" using yd rep w0 by simp
  have cell: "?deq ! (m * K + k) = round32 (nib k * s)" if "k < K" for k
    unfolding dequantize_q4_rowwise_f32_def
    using fold_rows_nth [OF m(1) that len,
            of "\<lambda>m k. fmul round32 (Finite (float_of_int8 (decode_q4_signed (nibble_at qweights K m k))))
                          (scales ! m)"]
    by (simp add: s nib_def)
  have ak: "round32 (nib k * s) = Finite (a k)" if "k < K" for k
  proof -
    have "isfinite (round32 (nib k * s))" using dfin that cell by simp
    then show ?thesis by (cases "round32 (nib k * s)") (simp_all add: a_def cell that)
  qed
  have tk: "\<bar>a k * xr k - s * (nib k * xr k)\<bar> \<le> u * (\<bar>s\<bar> * \<bar>nib k * xr k\<bar>) + \<eta> * \<bar>xr k\<bar>"
    if "k < K" for k
  proof -
    have "\<bar>a k * xr k - s * (nib k * xr k)\<bar> = \<bar>a k - nib k * s\<bar> * \<bar>xr k\<bar>"
      by (simp add: abs_mult [symmetric] algebra_simps)
    also have "\<dots> \<le> (u * \<bar>nib k * s\<bar> + \<eta>) * \<bar>xr k\<bar>"
      using rerr [OF ak [OF that]] by (intro mult_right_mono) simp_all
    also have "\<dots> = u * (\<bar>s\<bar> * \<bar>nib k * xr k\<bar>) + \<eta> * \<bar>xr k\<bar>"
      by (simp add: abs_mult algebra_simps)
    finally show ?thesis .
  qed
  have sums: "(\<Sum>k<K. u * (\<bar>s\<bar> * \<bar>nib k * xr k\<bar>) + \<eta> * \<bar>xr k\<bar>) = u * (\<bar>s\<bar> * A) + \<eta> * X"
    by (simp add: A_def X_def sum.distrib sum_distrib_left)
  have TdT: "\<bar>Td - s * T\<bar> \<le> u * (\<bar>s\<bar> * A) + \<eta> * X"
  proof -
    have "Td - s * T = (\<Sum>k<K. a k * xr k - s * (nib k * xr k))"
      by (simp add: Td_def T_def sum_subtractf sum_distrib_left)
    then have "\<bar>Td - s * T\<bar> \<le> (\<Sum>k<K. \<bar>a k * xr k - s * (nib k * xr k)\<bar>)"
      by (simp add: sum_abs)
    also have "\<dots> \<le> (\<Sum>k<K. u * (\<bar>s\<bar> * \<bar>nib k * xr k\<bar>) + \<eta> * \<bar>xr k\<bar>)"
      by (rule sum_mono) (simp add: tk)
    finally show ?thesis by (simp only: sums)
  qed
  have AdA: "Ad \<le> (1 + u) * (\<bar>s\<bar> * A) + \<eta> * X"
  proof -
    have "\<bar>a k * xr k\<bar> \<le> \<bar>s\<bar> * \<bar>nib k * xr k\<bar> + (u * (\<bar>s\<bar> * \<bar>nib k * xr k\<bar>) + \<eta> * \<bar>xr k\<bar>)"
      if "k < K" for k
    proof -
      have "\<bar>s * (nib k * xr k)\<bar> = \<bar>s\<bar> * \<bar>nib k * xr k\<bar>" by (simp add: abs_mult)
      then show ?thesis using tk [OF that] by linarith
    qed
    then have "Ad \<le> (\<Sum>k<K. \<bar>s\<bar> * \<bar>nib k * xr k\<bar> + (u * (\<bar>s\<bar> * \<bar>nib k * xr k\<bar>) + \<eta> * \<bar>xr k\<bar>))"
      unfolding Ad_def by (intro sum_mono) simp
    also have "\<dots> = \<bar>s\<bar> * A + (u * (\<bar>s\<bar> * A) + \<eta> * X)"
      by (simp add: A_def X_def sum.distrib sum_distrib_left)
    finally show ?thesis by (simp add: algebra_simps)
  qed
  have D: "\<bar>Sd - s * T\<bar> \<le>
             ((1 + u) * ((1 + u) * Q) - 1) * (\<bar>s\<bar> * A) + ((1 + u) * Q * X + c * Q) * \<eta>"
    by (rule dense_bound [OF u0 Q1 SdTd TdT AdA])
  have "1 * 1 \<le> (1 + u) * Q" using u0 Q1 by (intro mult_mono) simp_all
  moreover have "1 * Q \<le> (1 + u) * Q" using u0 Q1 by (intro mult_right_mono) simp_all
  ultimately have PQ: "1 \<le> (1 + u) * Q" "Q \<le> (1 + u) * Q" by simp_all
  have "(c * ((1 + u) * Q) * \<bar>s\<bar> + 1) * \<eta> + ((1 + u) * Q * X + c * Q) * \<eta> \<le>
        ((1 + u) * Q) * (c * (\<bar>s\<bar> + 1) + X + 1) * \<eta>"
  proof -
    have "c * Q \<le> c * ((1 + u) * Q)" using PQ(2) c0 by (rule mult_left_mono)
    then have "c * ((1 + u) * Q) * \<bar>s\<bar> + 1 + ((1 + u) * Q * X + c * Q) \<le>
               ((1 + u) * Q) * (c * (\<bar>s\<bar> + 1) + X + 1)"
      using PQ(1) by (simp add: algebra_simps)
    then have "(c * ((1 + u) * Q) * \<bar>s\<bar> + 1 + ((1 + u) * Q * X + c * Q)) * \<eta> \<le>
               ((1 + u) * Q) * (c * (\<bar>s\<bar> + 1) + X + 1) * \<eta>"
      using e0 by (rule mult_right_mono)
    then show ?thesis by (simp add: algebra_simps)
  qed
  moreover have "\<bar>yf - yd\<bar> \<le> \<bar>yf - s * T\<bar> + \<bar>Sd - s * T\<bar>" by (simp add: ydS)
  ultimately have "\<bar>yf - yd\<bar> \<le>
      2 * ((1 + u) * ((1 + u) * Q) - 1) * (\<bar>s\<bar> * A) + ((1 + u) * Q) * (c * (\<bar>s\<bar> + 1) + X + 1) * \<eta>"
    using F D by linarith
  moreover have "(1 + u) * ((1 + u) * Q) = (1 + u) ^ (K + 2)" "(1 + u) * Q = (1 + u) ^ (K + 1)"
    by (simp_all add: Q_def)
  moreover have "real_of_float (scales ! m) = s" by (simp add: s)
  ultimately have "\<bar>yf - yd\<bar> \<le>
      2 * ((1 + u) ^ (K + 2) - 1) * (\<bar>real_of_float (scales ! m)\<bar> * A) +
      (1 + u) ^ (K + 1) * (c * (\<bar>real_of_float (scales ! m)\<bar> + 1) + X + 1) * \<eta>"
    by (simp only:)
  then have bound: "\<bar>yf - yd\<bar> \<le>
           2 * ((1 + 1 / 2 ^ 24) ^ (K + 2) - 1) *
             (\<bar>real_of_float (scales ! m)\<bar> *
              (\<Sum>k<K. \<bar>float_of_int8 (decode_q4_signed (nibble_at qweights K m k)) *
                        real_of_float (x ! k)\<bar>)) +
           (1 + 1 / 2 ^ 24) ^ (K + 1) *
             (3 * real K * (\<bar>real_of_float (scales ! m)\<bar> + 1) +
              (\<Sum>k<K. \<bar>real_of_float (x ! k)\<bar>) + 1) / 2 ^ 150"
    unfolding u_def \<eta>_def c_def A_def X_def nib_def xr_def
    by (simp only: times_divide_eq_right mult_1_right)
  have sfin: "isfinite (scales ! m)" by (simp add: s)
  show ?thesis by (intro conjI) (rule sfin, rule xfin, rule bound)
qed

text \<open>
  One row of nibbles \<open>3, 7\<close> with the scale \<open>0.1f = 13421773 / 2 ^ 27\<close> and
  \<open>x = [7, -3]\<close>: the fused kernel returns 0 and the dense path \<open>2 ^ -22\<close>, which is
  within the bound, \<open>8.4 * ((1 + 2 ^ -24) ^ 4 - 1)\<close> and a little.
\<close>

theorem fused_matvec_error_at_cancellation:
  "matvec_q4_rowwise round32 [0x73] [Finite (13421773 / 2 ^ 27)] [Finite 7, Finite (- 3)]
     [Finite 0] 1 2 ! 0 = Finite 0 \<and>
   GemmRef_matvec round32
     (dequantize_q4_rowwise_f32 round32 [0x73] [Finite (13421773 / 2 ^ 27)] [Finite 0, Finite 0] 1 2)
     [Finite 7, Finite (- 3)] [Finite 0] 1 2 (Finite 1) (Finite 0) ! 0 = Finite (1 / 2 ^ 22) \<and>
   \<bar>0 - 1 / 2 ^ 22 :: real\<bar> \<le>
     2 * ((1 + 1 / 2 ^ 24) ^ 4 - 1) * (13421773 / 2 ^ 27 * (21 + 21)) +
     (1 + 1 / 2 ^ 24) ^ 3 * (3 * 2 * (13421773 / 2 ^ 27 + 1) + (7 + 3) + 1) / 2 ^ 150"
proof -
  have f: "matvec_q4_rowwise round32 [0x73] [Finite (13421773 / 2 ^ 27)] [Finite 7, Finite (- 3)]
     [Finite 0] 1 2 ! 0 = Finite 0"
    by (simp add: q4_f32_eval round32_eval)
  have d: "GemmRef_matvec round32
     (dequantize_q4_rowwise_f32 round32 [0x73] [Finite (13421773 / 2 ^ 27)] [Finite 0, Finite 0] 1 2)
     [Finite 7, Finite (- 3)] [Finite 0] 1 2 (Finite 1) (Finite 0) ! 0 = Finite (1 / 2 ^ 22)"
    by (simp add: q4_f32_eval round32_eval)
  have "\<bar>0 - 1 / 2 ^ 22 :: real\<bar> \<le>
     2 * ((1 + 1 / 2 ^ 24) ^ 4 - 1) * (13421773 / 2 ^ 27 * (21 + 21)) +
     (1 + 1 / 2 ^ 24) ^ 3 * (3 * 2 * (13421773 / 2 ^ 27 + 1) + (7 + 3) + 1) / 2 ^ 150"
  proof -
    have two: "(\<Sum>k<2. g k) = g 0 + g 1" for g :: "nat \<Rightarrow> real"
      by (simp add: numeral_2_eq_2 lessThan_Suc)
    have nibs: "float_of_int8 (decode_q4_signed (nibble_at [0x73] 2 0 0)) = 3"
      "float_of_int8 (decode_q4_signed (nibble_at [0x73] 2 0 (Suc 0))) = 7"
      by (simp_all add: nibble_at_def decode_q4_signed_def float_of_int8_def)
    show ?thesis
      using conjunct2 [OF conjunct2 [OF fused_matvec_error_bound [OF _ _ _ f d]]]
      by (simp add: two nibs)
  qed
  with f d show ?thesis by simp
qed

text \<open>
  The same row: the row sum \<open>21 - 21\<close> cancels and the fused kernel returns 0; the dense
  path rounds \<open>3 * 0.1f\<close> and \<open>7 * 0.1f\<close> first and returns \<open>2 ^ -22\<close>, a relative error
  of 1. One nibble 7 with the scale \<open>2 ^ -7\<close> and \<open>x = [2 ^ 126]\<close>: the fused kernel
  overflows in \<open>7 * x\<close> and returns \<open>+\<infinity>\<close>; the dense path returns \<open>7 * 2 ^ 119\<close>.
\<close>

theorem fused_differs_from_dense_path:
  "matvec_q4_rowwise round32 [0x73] [Finite (13421773 / 2 ^ 27)] [Finite 7, Finite (- 3)]
     [Finite 0] 1 2 = [Finite 0] \<and>
   GemmRef_matvec round32
     (dequantize_q4_rowwise_f32 round32 [0x73] [Finite (13421773 / 2 ^ 27)] [Finite 0, Finite 0] 1 2)
     [Finite 7, Finite (- 3)] [Finite 0] 1 2 (Finite 1) (Finite 0) = [Finite (1 / 2 ^ 22)] \<and>
   matvec_q4_rowwise round32 [0x07] [Finite (1 / 2 ^ 7)] [Finite (2 ^ 126)] [Finite 0] 1 1 = [PInf] \<and>
   GemmRef_matvec round32
     (dequantize_q4_rowwise_f32 round32 [0x07] [Finite (1 / 2 ^ 7)] [Finite 0] 1 1)
     [Finite (2 ^ 126)] [Finite 0] 1 1 (Finite 1) (Finite 0) = [Finite (7 * 2 ^ 119)]"
  by (simp add: q4_f32_eval round32_eval)


section \<open>Codec: round trip\<close>

text \<open>
  One nibble on its own: a weight within \<open>[-8 * scale, 7 * scale]\<close> is quantized, masked
  and decoded to a value within \<open>scale / 2\<close> of it.
\<close>

lemma std_round_near: "\<bar>real_of_int (std_round x) - x\<bar> \<le> 1 / 2"
proof (cases "0 \<le> x")
  case True
  have a: "real_of_int \<lfloor>x + 1 / 2\<rfloor> \<le> x + 1 / 2"
    by (rule of_int_floor_le)
  have b: "x + 1 / 2 < real_of_int \<lfloor>x + 1 / 2\<rfloor> + 1"
    by (rule real_of_int_floor_add_one_gt)
  have r: "std_round x = \<lfloor>x + 1 / 2\<rfloor>" using True by (simp add: std_round_def)
  show ?thesis unfolding r using a b by linarith
next
  case False
  have a: "real_of_int \<lfloor>- x + 1 / 2\<rfloor> \<le> - x + 1 / 2"
    by (rule of_int_floor_le)
  have b: "- x + 1 / 2 < real_of_int \<lfloor>- x + 1 / 2\<rfloor> + 1"
    by (rule real_of_int_floor_add_one_gt)
  have r: "real_of_int (std_round x) = - real_of_int \<lfloor>- x + 1 / 2\<rfloor>"
    using False by (simp add: std_round_def)
  show ?thesis unfolding r using a b by linarith
qed

lemma std_round_range:
  assumes "- 8 \<le> x" "x \<le> 7"
  shows "- 8 \<le> std_round x" "std_round x \<le> 7"
  using assms unfolding std_round_def by (auto; linarith)+

lemma nibble_round_trip:
  assumes "- 8 \<le> r" "r \<le> 7"
  shows "float_of_int8 (decode_q4_signed
           (max_int8 (- 8) (min_int8 7 (int8_of_float r)) AND 0x0F)) = real_of_int r"
proof -
  have "r = - 8 \<or> r = - 7 \<or> r = - 6 \<or> r = - 5 \<or> r = - 4 \<or> r = - 3 \<or> r = - 2 \<or> r = - 1 \<or>
        r = 0 \<or> r = 1 \<or> r = 2 \<or> r = 3 \<or> r = 4 \<or> r = 5 \<or> r = 6 \<or> r = 7"
    using assms by arith
  then show ?thesis
    by (elim disjE)
       (simp_all add: float_of_int8_def decode_q4_signed_def max_int8_def min_int8_def
          int8_of_float_def)
qed

lemma quantize_in_range:
  assumes "0 < sc" "- 8 * sc \<le> w" "w \<le> 7 * sc"
  shows "\<bar>float_of_int8 (decode_q4_signed (quantize w sc AND 0x0F)) * sc - w\<bar> \<le> sc / 2"
proof -
  let ?x = "w / sc"
  have x: "- 8 \<le> ?x" "?x \<le> 7"
    using assms by (simp_all add: field_simps)
  have "float_of_int8 (decode_q4_signed (quantize w sc AND 0x0F)) = real_of_int (std_round ?x)"
    unfolding quantize_def by (rule nibble_round_trip) (use std_round_range [OF x] in auto)
  moreover have "\<bar>real_of_int (std_round ?x) * sc - w\<bar> = sc * \<bar>real_of_int (std_round ?x) - ?x\<bar>"
  proof -
    have "real_of_int (std_round ?x) * sc - w = sc * (real_of_int (std_round ?x) - ?x)"
      using assms(1) by (simp add: field_simps)
    then show ?thesis using assms(1) by (simp add: abs_mult)
  qed
  ultimately show ?thesis
    using std_round_near [of ?x] assms(1)
    by (simp add: field_simps)
qed

text \<open>
  C6. The claim: for a positive row scale and a weight within \<open>[-8 * scale, 7 * scale]\<close>,
  packing and dequantizing returns a value within \<open>scale / 2\<close> of the weight, and a
  weight outside the range saturates at \<open>-8\<close> or \<open>7\<close>. Both readers and the packer pick
  the nibble by the parity of \<open>k\<close> but the byte by \<open>(m * K + k) / 2\<close>; with an odd \<open>K\<close>
  the last element of a row and the first of the next share one nibble. For the
  \<open>2 \<times> 1\<close> matrix \<open>[3, -5]\<close> with both scales 1, the round trip returns \<open>[-5, -5]\<close>.
  The conversion to \<open>int8_t\<close> comes before the clamp: the weight 200 at scale 1 becomes
  \<open>-56\<close> and then \<open>-8\<close>, not 7.
\<close>

theorem round_trip_odd_K_overwrites:
  "(let (qweights, scales_out) = pack_q4_rowwise [3, - 5] [1, 1] [0] [0, 0] 2 1
    in dequantize_q4_rowwise qweights scales_out [0, 0] 2 1) = [- 5, - 5] \<and>
   float_of_int8 (decode_q4_signed (quantize 200 1 AND 0x0F)) = - 8"
  by (simp add: codec_eval)


section \<open>GEMM: vectorised against reference\<close>

text \<open>
  C3. The claim: \<open>matmul_avx2_f32\<close> computes the same \<open>C\<close> as \<open>simple_matmul\<close>, also
  where \<open>K\<close> or \<open>N\<close> is not a multiple of 8. The vectorised kernel stores
  \<open>alpha * total_sum + beta * C\<close> once per block of the \<open>k\<close> dimension, so with \<open>K = 9\<close>
  and \<open>beta = 0\<close> only the last block survives: all-ones \<open>1 \<times> 9\<close> by \<open>9 \<times> 1\<close> gives 1,
  the reference gives 9. Its vector load of \<open>B\<close> takes eight consecutive elements of
  one row, not eight elements of one column: with \<open>K = 8\<close>, \<open>N = 2\<close> the cell \<open>(0, 0)\<close>
  reads \<open>B[1]\<close> where the reference reads \<open>B[2]\<close>.
\<close>

theorem avx2_differs_from_reference:
  "simple_matmul [1, 1, 1, 1, 1, 1, 1, 1, 1] [1, 1, 1, 1, 1, 1, 1, 1, 1] [0] 1 9 1 1 0 = [9] \<and>
   matmul_avx2_f32 [1, 1, 1, 1, 1, 1, 1, 1, 1] [1, 1, 1, 1, 1, 1, 1, 1, 1] [0] 1 9 1 1 0 = [1] \<and>
   simple_matmul [0, 1, 0, 0, 0, 0, 0, 0] [0, 1, 0, 0, 0, 0, 0, 0, 0, 0, 0, 0, 0, 0, 0, 0]
     [0, 0] 1 8 2 1 0 = [0, 0] \<and>
   matmul_avx2_f32 [0, 1, 0, 0, 0, 0, 0, 0] [0, 1, 0, 0, 0, 0, 0, 0, 0, 0, 0, 0, 0, 0, 0, 0]
     [0, 0] 1 8 2 1 0 = [1, 0]"
  by code_simp


section \<open>Arena pool: reset and reuse\<close>

lemma first_fit_none_free:
  "\<forall>c \<in> set cs. \<not> chunk_free c \<Longrightarrow> first_fit sz cs = None"
  by (induction cs) (auto simp: chunk_free_def)

lemma reset_no_chunk_free: "\<forall>c \<in> set (head_chunks (reset pool)). \<not> chunk_free c"
  by (simp add: reset_def chunk_free_def)

lemma reset_total_allocated: "total_allocated (reset pool) = total_allocated pool"
  by (simp add: reset_def)

text \<open>
  After \<open>reset\<close> no chunk can be handed out, so every request of a positive size links a
  new chunk in and grows \<open>total_allocated_\<close>.
\<close>

lemma allocate_after_reset_grows:
  assumes "0 < sz"
  shows "\<exists>p pool' heap'.
           allocate (Suc (Suc fuel)) sz (reset pool, heap) = Some (p, pool', heap') \<and>
           total_allocated pool' = total_allocated pool + max sz (total_allocated pool div 2)"
proof -
  have none: "first_fit sz (head_chunks (reset pool)) = None"
    by (rule first_fit_none_free) (rule reset_no_chunk_free)
  define new_size where "new_size = max sz (total_allocated pool div 2)"
  have pos: "new_size \<noteq> 0" and ge: "sz \<le> new_size"
    using assms by (simp_all add: new_size_def)
  show ?thesis
    using none pos ge
    by (auto simp: reset_total_allocated AlignedAllocator_allocate_def Let_def
          new_size_def [symmetric])
qed

text \<open>
  C4. The claim: \<open>reset()\<close> marks every chunk free, and an \<open>allocate()\<close> of a size that was
  satisfiable before succeeds afterwards by reuse, without growth of the total. \<open>reset\<close>
  writes \<open>data = nullptr\<close> and \<open>size = 0\<close> into every chunk, the state of a chunk that was
  handed out. A pool of 1024 bytes serves 100 bytes from its first chunk; after \<open>reset\<close>
  neither of its two chunks is free, and the same request links a new chunk of 512
  bytes in: the total grows from 1024 to 1536.
\<close>

theorem reset_then_allocate_grows:
  "(case allocate (Suc (Suc 0)) 100 (TensorPool_init 0 1024) of
      None \<Rightarrow> None
    | Some (p, pool, heap) \<Rightarrow>
        (case allocate (Suc (Suc 0)) 100 (reset pool, heap) of
           None \<Rightarrow> None
         | Some (p', pool', heap') \<Rightarrow>
             Some (total_allocated pool, map chunk_free (head_chunks (reset pool)),
                   total_allocated pool')))
   = Some (1024, [False, False], 1536)"
  by (simp add: TensorPool_init_def AlignedAllocator_allocate_def reset_def chunk_free_def)


section \<open>Attention: input validation\<close>

lemma data_float_Inr_iff: "(\<exists>xs. data_float t = Inr xs) \<longleftrightarrow> dtype t = FP32"
  by (cases "dtype t") (simp_all add: data_float_def)

lemma data_float_FP32: "dtype t = FP32 \<Longrightarrow> data_float t = Inr (raw t)"
  by (simp add: data_float_def)

lemma data_float_not_FP32: "dtype t \<noteq> FP32 \<Longrightarrow> isl (data_float t)"
  by (cases "dtype t") (simp_all add: data_float_def)

lemma dtype_Tensor_f32: "dtype (Tensor_f32 shp dt) = dt"
  by (simp add: Tensor_f32_def Let_def)

lemma compute_attention_FP32:
  assumes "dtype Q = FP32" "dtype K = FP32" "dtype V = FP32" "dtype output = FP32"
  shows "\<not> isl (compute_attention fa Q K V output cache)"
  using assms by (simp add: compute_attention_def data_float_FP32 Let_def)

lemma head_step_FP32:
  assumes "dtype query = FP32" "dtype key = FP32" "dtype val = FP32"
  shows "\<not> isl (head_step fa query key val h st)"
proof -
  obtain outp cache where st: "st = (outp, cache)" by (cases st)
  show ?thesis
    unfolding head_step_def st
    using assms
    by (auto simp: data_float_FP32 Let_def compute_attention_def dtype_Tensor_f32
             split: prod.splits sum.splits)
qed

lemma head_step_not_FP32:
  assumes "dtype query \<noteq> FP32 \<or> dtype key \<noteq> FP32 \<or> dtype val \<noteq> FP32"
  shows "isl (head_step fa query key val h st)"
proof -
  obtain outp cache where st: "st = (outp, cache)" by (cases st)
  have "isl (data_float query) \<or> isl (data_float key) \<or> isl (data_float val)"
    using assms data_float_not_FP32 by blast
  then show ?thesis
    unfolding head_step_def st
    by (auto simp: Let_def split: sum.splits prod.splits)
qed

lemma head_loop_stays_failed:
  "fold (\<lambda>h acc. case acc of Inl e \<Rightarrow> Inl e | Inr st \<Rightarrow> f h st) hs (Inl e) = Inl e"
  by (induction hs) simp_all

lemma head_loop_fails:
  assumes "hs \<noteq> []" "\<And>h st. isl (f h st)"
  shows "isl (fold (\<lambda>h acc. case acc of Inl e \<Rightarrow> Inl e | Inr st \<Rightarrow> f h st) hs (Inr st))"
proof (cases hs)
  case Nil
  with assms(1) show ?thesis by simp
next
  case (Cons h hs')
  obtain e where "f h st = Inl e" using assms(2) [of h st] by (cases "f h st") auto
  then show ?thesis by (simp add: Cons head_loop_stays_failed)
qed

lemma head_loop_succeeds:
  assumes "\<And>h st. \<not> isl (f h st)"
  shows "\<not> isl (fold (\<lambda>h acc. case acc of Inl e \<Rightarrow> Inl e | Inr st \<Rightarrow> f h st) hs (Inr st))"
proof (induction hs arbitrary: st)
  case Nil
  show ?case by simp
next
  case (Cons h hs)
  obtain st' where "f h st = Inr st'" using assms [of h st] by (cases "f h st") auto
  then show ?case using Cons.IH by simp
qed

text \<open>
  The GEMM entry points check every dimension of their three operands before they
  compute.
\<close>

lemma validate_shapes_rejects:
  "isl (validate_shapes A B C) \<longleftrightarrow>
     length (shape A) \<noteq> 2 \<or> length (shape B) \<noteq> 2 \<or> length (shape C) \<noteq> 2 \<or>
     shape A ! 1 \<noteq> shape B ! 0 \<or> shape A ! 0 \<noteq> shape C ! 0 \<or> shape B ! 1 \<noteq> shape C ! 1"
  by (auto simp: validate_shapes_def Let_def)

text \<open>
  What \<open>forward\<close> checks. It throws, and so returns no output, when one of the three
  inputs is not of rank 3, when the batch sizes differ, when the hidden sizes differ, or
  when there is at least one head and one of the inputs is not FP32 (the typed accessor
  throws in the first iteration of the loop over heads).
\<close>

lemma forward_rejects:
  assumes "length (shape query) \<noteq> 3 \<or> length (shape key) \<noteq> 3 \<or> length (shape val) \<noteq> 3 \<or>
           shape query ! 0 \<noteq> shape key ! 0 \<or> shape query ! 0 \<noteq> shape val ! 0 \<or>
           shape query ! 2 \<noteq> shape key ! 2 \<or> shape query ! 2 \<noteq> shape val ! 2 \<or>
           0 < sint (num_heads fa) \<and>
             (dtype query \<noteq> FP32 \<or> dtype key \<noteq> FP32 \<or> dtype val \<noteq> FP32)"
  shows "isl (forward fa query key val cache)"
proof (cases "length (shape query) \<noteq> 3 \<or> length (shape key) \<noteq> 3 \<or> length (shape val) \<noteq> 3 \<or>
           shape query ! 0 \<noteq> shape key ! 0 \<or> shape query ! 0 \<noteq> shape val ! 0 \<or>
           shape query ! 2 \<noteq> shape key ! 2 \<or> shape query ! 2 \<noteq> shape val ! 2")
  case True
  then show ?thesis by (auto simp: forward_def Let_def)
next
  case False
  with assms have heads: "[0..<bound (num_heads fa)] \<noteq> []"
    and bad: "dtype query \<noteq> FP32 \<or> dtype key \<noteq> FP32 \<or> dtype val \<noteq> FP32"
    by (auto simp: bound_def)
  have "isl (fold (\<lambda>head acc. case acc of Inl e \<Rightarrow> Inl e
                                | Inr st \<Rightarrow> head_step fa query key val head st)
               [0..<bound (num_heads fa)] (Inr st))" for st
    by (rule head_loop_fails [OF heads]) (rule head_step_not_FP32 [OF bad])
  with False show ?thesis by (simp add: forward_def Let_def)
qed

text \<open>Nothing else is checked: inputs that pass these checks yield an output.\<close>

lemma forward_accepts:
  assumes "length (shape query) = 3" "length (shape key) = 3" "length (shape val) = 3"
    "shape query ! 0 = shape key ! 0" "shape query ! 0 = shape val ! 0"
    "shape query ! 2 = shape key ! 2" "shape query ! 2 = shape val ! 2"
    "dtype query = FP32" "dtype key = FP32" "dtype val = FP32"
  shows "\<not> isl (forward fa query key val cache)"
proof -
  have "\<not> isl (fold (\<lambda>head acc. case acc of Inl e \<Rightarrow> Inl e
                                | Inr st \<Rightarrow> head_step fa query key val head st)
               hs (Inr st))" for st hs
    by (rule head_loop_succeeds) (rule head_step_FP32 [OF assms(8-10)])
  with assms(1-7) show ?thesis by (simp add: forward_def Let_def)
qed

text \<open>A query of rank 2, and a value tensor that is FP16, are rejected.\<close>

lemma forward_rejects_rank_and_dtype:
  "isl (forward \<lparr>hidden_size = 1, num_heads = 1, head_dim = 1, scale = 1\<rparr>
          (filled [2, 1] [0, 0]) (filled [1, 2, 1] [0, 0]) (filled [1, 2, 1] [5, 7]) None) \<and>
   isl (forward \<lparr>hidden_size = 1, num_heads = 1, head_dim = 1, scale = 1\<rparr>
          (filled [1, 2, 1] [0, 0]) (filled [1, 2, 1] [0, 0])
          ((filled [1, 2, 1] [5, 7])\<lparr>dtype := FP16\<rparr>) None)"
proof -
  let ?fa = "\<lparr>hidden_size = 1, num_heads = 1, head_dim = 1, scale = 1\<rparr>"
  have "isl (forward ?fa (filled [2, 1] [0, 0]) (filled [1, 2, 1] [0, 0]) (filled [1, 2, 1] [5, 7]) None)"
    by (rule forward_rejects) (simp add: filled_def Tensor_f32_def Let_def)
  moreover have "isl (forward ?fa (filled [1, 2, 1] [0, 0]) (filled [1, 2, 1] [0, 0])
          ((filled [1, 2, 1] [5, 7])\<lparr>dtype := FP16\<rparr>) None)"
    by (rule forward_rejects) (simp add: filled_def Tensor_f32_def Let_def)
  ultimately show ?thesis by simp
qed

text \<open>
  C9. The claim: any shape, rank or dtype mismatch among the three inputs, a
  sequence-length mismatch and a hidden size that is not \<open>num_heads * head_dim\<close>
  included, fails before output is produced, and no output element is truncated, padded
  or a default value. \<open>forward\<close> compares dimensions 0 and 2 of the three shapes and
  never dimension 1, and it never compares the hidden size with \<open>num_heads * head_dim\<close>
  (the member \<open>hidden_size_\<close> is not read). With one head of dimension 2 and hidden size
  3, it returns an output whose third element is the 0 of the fresh buffer, no head
  having written it. With a query of one position and keys and values of two, it returns
  an output computed from the first key and value alone. With two batch elements, it
  indexes the keys and values of two positions with the sequence length 1 of the query,
  and answers batch element 1 from the second position of batch element 0: the output is
  \<open>[5, 7]\<close> where the values of batch element 1 are \<open>[9, 11]\<close>.
\<close>

theorem forward_accepts_mismatches:
  "map_sum id (raw \<circ> fst)
     (forward \<lparr>hidden_size = 2, num_heads = 1, head_dim = 2, scale = 1\<rparr>
        (filled [1, 1, 3] [1, 2, 3]) (filled [1, 1, 3] [1, 2, 3]) (filled [1, 1, 3] [1, 2, 3]) None)
     = Inr [1, 2, 0] \<and>
   map_sum id (raw \<circ> fst)
     (forward \<lparr>hidden_size = 1, num_heads = 1, head_dim = 1, scale = 1\<rparr>
        (filled [1, 1, 1] [0]) (filled [1, 2, 1] [0, 0]) (filled [1, 2, 1] [5, 7]) None)
     = Inr [5] \<and>
   map_sum id (raw \<circ> fst)
     (forward \<lparr>hidden_size = 1, num_heads = 1, head_dim = 1, scale = 1\<rparr>
        (filled [2, 1, 1] [0, 0]) (filled [2, 2, 1] [0, 0, 0, 0]) (filled [2, 2, 1] [5, 7, 9, 11]) None)
     = Inr [5, 7]"
  by (simp add: attention_eval)

text \<open>The first of the three calls, read off the evaluation.\<close>

theorem forward_accepts_oversized_hidden:
  "map_sum id (raw \<circ> fst)
     (forward \<lparr>hidden_size = 2, num_heads = 1, head_dim = 2, scale = 1\<rparr>
        (filled [1, 1, 3] [1, 2, 3]) (filled [1, 1, 3] [1, 2, 3]) (filled [1, 1, 3] [1, 2, 3]) None)
     = Inr [1, 2, 0]"
  by (rule conjunct1 [OF forward_accepts_mismatches])


section \<open>Attention: the cache\<close>

lemma compute_attention_cache:
  "compute_attention fa Q K V outp cache =
     map_sum id (\<lambda>(o', c). (o', cache)) (compute_attention fa Q K V outp c0)"
  by (simp add: compute_attention_def Let_def split: sum.splits)

lemma head_step_cache:
  "head_step fa query key val h (outp, cache) =
     map_sum id (\<lambda>(o', c). (o', cache)) (head_step fa query key val h (outp, c0))"
proof -
  have "compute_attention fa Q K V ho cache =
          map_sum id (\<lambda>(o', c). (o', cache)) (compute_attention fa Q K V ho c0)" for Q K V ho
    by (rule compute_attention_cache)
  then show ?thesis
    unfolding head_step_def
    by (auto simp: Let_def compute_attention_def split: sum.splits prod.splits)
qed

lemma head_loop_cache:
  "fold (\<lambda>head acc. case acc of Inl e \<Rightarrow> Inl e | Inr st \<Rightarrow> head_step fa query key val head st)
     hs (Inr (outp, cache)) =
   map_sum id (\<lambda>(o', c). (o', cache))
     (fold (\<lambda>head acc. case acc of Inl e \<Rightarrow> Inl e | Inr st \<Rightarrow> head_step fa query key val head st)
        hs (Inr (outp, c0)))"
proof (induction hs arbitrary: outp)
  case Nil
  show ?case by simp
next
  case (Cons h hs)
  show ?case
  proof (cases "head_step fa query key val h (outp, c0)")
    case (Inl e)
    then have "head_step fa query key val h (outp, cache) = Inl e"
      using head_step_cache [of fa query key val h outp cache c0] by simp
    with Inl show ?thesis
      by (simp add: head_loop_stays_failed)
  next
    case (Inr st)
    obtain o' c' where st: "st = (o', c')" by (cases st)
    have "head_step fa query key val h (outp, cache) = Inr (o', cache)"
      using head_step_cache [of fa query key val h outp cache c0] Inr st by simp
    moreover have "c' = c0"
      using head_step_cache [of fa query key val h outp c0 c0] Inr st
      by (cases "head_step fa query key val h (outp, c0)") auto
    ultimately show ?thesis
      using Inr st Cons.IH [of o'] by simp
  qed
qed

text \<open>
  For every call: the output does not depend on the cache, and the cache that comes back
  is the cache that went in.
\<close>

lemma forward_cache:
  "forward fa query key val cache =
     map_sum id (\<lambda>(o', c). (o', cache)) (forward fa query key val None)"
  using head_loop_cache [of fa query key val _ _ cache None]
  by (simp add: forward_def Let_def)

lemma forward_leaves_cache:
  assumes "forward fa query key val cache = Inr (outp, cache')"
  shows "cache' = cache" and "forward fa query key val None = Inr (outp, None)"
proof -
  obtain r where r: "forward fa query key val None = r" by simp
  show "cache' = cache"
    using assms forward_cache [of fa query key val cache]
    by (cases "forward fa query key val None") auto
  have "forward fa query key val None = map_sum id (\<lambda>(o', c). (o', None)) (forward fa query key val None)"
    by (rule forward_cache)
  then show "forward fa query key val None = Inr (outp, None)"
    using assms forward_cache [of fa query key val cache]
    by (cases "forward fa query key val None") auto
qed

text \<open>
  C1. The claim: a call with a cache appends the new key/value vectors, advances
  \<open>current_length\<close>, attends over the accumulated history, and so agrees with one full
  pass. \<open>forward\<close> and \<open>compute_attention\<close> pass the cache along and never touch it.
  With one head of dimension 1, zero queries and keys, and values \<open>[0, 1]\<close>: the full
  pass yields \<open>1 / 2\<close> at position 1. Given an empty cache, the call for position 0
  leaves the cache empty with \<open>current_length = 0\<close>, and the call for position 1 alone
  yields \<open>1\<close>.
\<close>

theorem cache_is_ignored:
  "map_sum id (\<lambda>(out, c). (raw out, c))
     (forward \<lparr>hidden_size = 1, num_heads = 1, head_dim = 1, scale = 1\<rparr>
        (filled [1, 2, 1] [0, 0]) (filled [1, 2, 1] [0, 0]) (filled [1, 2, 1] [0, 1]) None)
     = Inr ([0, 1 / 2], None) \<and>
   map_sum id (\<lambda>(out, c). (raw out, c))
     (forward \<lparr>hidden_size = 1, num_heads = 1, head_dim = 1, scale = 1\<rparr>
        (filled [1, 1, 1] [0]) (filled [1, 1, 1] [0]) (filled [1, 1, 1] [0])
        (Some \<lparr>cache_keys = [], cache_values = [], current_length = 0\<rparr>))
     = Inr ([0], Some \<lparr>cache_keys = [], cache_values = [], current_length = 0\<rparr>) \<and>
   map_sum id (\<lambda>(out, c). (raw out, c))
     (forward \<lparr>hidden_size = 1, num_heads = 1, head_dim = 1, scale = 1\<rparr>
        (filled [1, 1, 1] [0]) (filled [1, 1, 1] [0]) (filled [1, 1, 1] [1])
        (Some \<lparr>cache_keys = [], cache_values = [], current_length = 0\<rparr>))
     = Inr ([1], Some \<lparr>cache_keys = [], cache_values = [], current_length = 0\<rparr>)"
  by (simp add: attention_eval)

text \<open>The decode step read off the evaluation: position 1 alone, given the cache, yields 1.\<close>

theorem cache_is_ignored_decode_step:
  "map_sum id (\<lambda>(out, c). (raw out, c))
     (forward \<lparr>hidden_size = 1, num_heads = 1, head_dim = 1, scale = 1\<rparr>
        (filled [1, 1, 1] [0]) (filled [1, 1, 1] [0]) (filled [1, 1, 1] [1])
        (Some \<lparr>cache_keys = [], cache_values = [], current_length = 0\<rparr>))
     = Inr ([1], Some \<lparr>cache_keys = [], cache_values = [], current_length = 0\<rparr>)"
  by (rule conjunct2 [OF conjunct2 [OF cache_is_ignored]])


section \<open>Attention: the softmax of one row\<close>

lemma map_upt_update:
  assumes "n < L"
  shows "(map f [0..<L])[n := v] = map (f(n := v)) [0..<L]"
  using assms by (simp add: list_eq_iff_nth_eq nth_list_update)

lemma prefix_step:
  assumes "n < L"
  shows "(map (\<lambda>t. if t < n then A t else B t) [0..<L])[n := A n] =
         map (\<lambda>t. if t < Suc n then A t else B t) [0..<L]"
proof -
  have "(\<lambda>t. if t < n then A t else B t)(n := A n) = (\<lambda>t. if t < Suc n then A t else B t)"
    by (rule ext) (simp add: less_Suc_eq)
  then show ?thesis using map_upt_update [OF assms] by metis
qed

text \<open>
  In exact arithmetic the first loop leaves the scores of the window in \<open>scores\<close> and their
  maximum, a number, in \<open>max_score\<close>.
\<close>

lemma std_max_Max:
  "std_max (if n = 0 then None else Some (Max (f ` {..<n}))) (f n) = Some (Max (f ` {..<Suc n}))"
proof (cases "n = 0")
  case True
  then show ?thesis by (simp add: std_max_def lessThan_Suc)
next
  case False
  then have ne: "f ` {..<n} \<noteq> {}" by auto
  have "Max (f ` {..<Suc n}) = max (f n) (Max (f ` {..<n}))"
    using ne by (simp add: lessThan_Suc)
  with False show ?thesis by (auto simp: std_max_def max_def)
qed

lemma score_loop_prefix:
  fixes sc :: "nat \<Rightarrow> real"
  assumes "n \<le> S"
  shows "fold (\<lambda>t (scores, max_score). (scores[t := sc t], std_max max_score (sc t)))
           [0..<n] (replicate S 0, None) =
         (map (\<lambda>t. if t < n then sc t else 0) [0..<S],
          if n = 0 then None else Some (Max (sc ` {..<n})))"
  using assms
proof (induction n)
  case 0
  show ?case by (simp add: map_replicate_trivial)
next
  case (Suc n)
  have upd: "(map (\<lambda>t. if t < n then sc t else 0) [0..<S])[n := sc n] =
             map (\<lambda>t. if t < Suc n then sc t else 0) [0..<S]"
    using Suc.prems by (intro prefix_step) simp
  show ?case
    using Suc.IH Suc.prems upd std_max_Max [of n sc] by simp
qed

lemma score_loop_eq:
  assumes "s < S"
  shows "score_loop scl q k S D b s =
           (map (\<lambda>t. if t \<le> s then dot_product q k S D b s t * scl else 0) [0..<S],
            Some (Max ((\<lambda>t. dot_product q k S D b s t * scl) ` {..s})))"
proof -
  have "Suc s \<le> S" using assms by simp
  from score_loop_prefix [OF this, of "\<lambda>t. dot_product q k S D b s t * scl"]
  show ?thesis
    by (simp add: score_loop_def Let_def less_Suc_eq_le lessThan_Suc_atMost)
qed




















section \<open>Attention: causality\<close>

lemma dot_product_cong:
  assumes "\<And>d. d < D \<Longrightarrow> k ! (b * S * D + t * D + d) = k' ! (b * S * D + t * D + d)"
  shows "dot_product q k S D b s t = dot_product q k' S D b s t"
  unfolding dot_product_def
  by (rule fold_cong) (use assms in \<open>auto simp: Let_def\<close>)

lemma score_loop_cong:
  assumes "\<And>t d. t \<le> s \<Longrightarrow> d < D \<Longrightarrow>
             k ! (b * S * D + t * D + d) = k' ! (b * S * D + t * D + d)"
  shows "score_loop scl q k S D b s = score_loop scl q k' S D b s"
  unfolding score_loop_def
proof (rule fold_cong)
  fix t assume "t \<in> set [0..<Suc s]"
  then have "t \<le> s" by auto
  then have "dot_product q k S D b s t = dot_product q k' S D b s t"
    by (intro dot_product_cong assms)
  then show "(\<lambda>(scores, max_score).
                let score = dot_product q k S D b s t * scl
                in (scores[t := score], std_max max_score score)) =
             (\<lambda>(scores, max_score).
                let score = dot_product q k' S D b s t * scl
                in (scores[t := score], std_max max_score score))"
    by simp
qed simp_all

lemma attention_scores_cong:
  assumes "\<And>t d. t \<le> s \<Longrightarrow> d < D \<Longrightarrow>
             k ! (b * S * D + t * D + d) = k' ! (b * S * D + t * D + d)"
  shows "attention_scores scl q k S D b s = attention_scores scl q k' S D b s"
  using score_loop_cong [of s D k b S k' scl q] assms
  by (simp add: attention_scores_def)

lemma weighted_sum_at_cong:
  assumes "\<And>t. t \<le> s \<Longrightarrow> v ! (b * S * D + t * D + d) = v' ! (b * S * D + t * D + d)"
  shows "weighted_sum_at scores v S D b s d = weighted_sum_at scores v' S D b s d"
  unfolding weighted_sum_at_def
  by (rule fold_cong) (use assms in \<open>auto simp: Let_def\<close>)

text \<open>The cell of the output that the loop nest writes for \<open>(b, s, d)\<close>.\<close>

lemma weighted_sum_loop_nth:
  assumes "j < length out"
  shows "weighted_sum_loop scores v out S D b s ! j =
           (if b * S * D + s * D \<le> j \<and> j < b * S * D + s * D + D
            then weighted_sum_at scores v S D b s (j - (b * S * D + s * D)) else out ! j)"
  unfolding weighted_sum_loop_def Let_def
  using fold_cells_nth [OF assms, of "b * S * D + s * D" "\<lambda>d. weighted_sum_at scores v S D b s d" D]
  by (simp add: add.assoc)

lemma weighted_sum_loop_length:
  "length (weighted_sum_loop scores v out S D b s) = length out"
  unfolding weighted_sum_loop_def Let_def by (rule fold_keeps_length) simp

lemma weighted_sum_loop_other:
  assumes "\<not> (b * S * D + s * D \<le> j \<and> j < b * S * D + s * D + D)"
  shows "weighted_sum_loop scores v out S D b s ! j = out ! j"
  unfolding weighted_sum_loop_def Let_def
  using fold_cells_other [OF assms, of "\<lambda>d. weighted_sum_at scores v S D b s d" out]
  by (simp add: add.assoc)

lemma block_div_mod:
  fixes i w j off :: nat
  assumes "off + i * w \<le> j" "j < off + Suc i * w"
  shows "(j - off) div w = i" and "(j - off) mod w = j - off - i * w"
proof -
  have a: "i * w \<le> j - off" and b: "j - off < Suc i * w"
    using assms by auto
  show d: "(j - off) div w = i"
    using a b by (metis div_nat_eqI mult.commute)
  show "(j - off) mod w = j - off - i * w"
    using d by (metis minus_mult_div_eq_mod mult.commute)
qed

lemma fold_other:
  assumes "\<And>i xs. i \<in> set js \<Longrightarrow> step i xs ! j = xs ! j"
  shows "fold step js xs ! j = xs ! j"
  using assms by (induction js arbitrary: xs) simp_all

lemma batch_other:
  assumes "\<not> (b * S * D \<le> j \<and> j < b * S * D + S * D)"
  shows "fold (\<lambda>s out. weighted_sum_loop (attention_scores scl q k S D b s) v out S D b s)
           [0..<S] out ! j = out ! j"
proof (rule fold_other)
  fix i and xs :: "real list"
  assume "i \<in> set [0..<S]"
  then have "Suc i \<le> S" by simp
  then have "Suc i * D \<le> S * D" by (rule mult_le_mono1)
  then have "i * D + D \<le> S * D" by simp
  with assms have "\<not> (b * S * D + i * D \<le> j \<and> j < b * S * D + i * D + D)"
    by auto
  then show "weighted_sum_loop (attention_scores scl q k S D b i) v xs S D b i ! j = xs ! j"
    by (rule weighted_sum_loop_other)
qed

lemma batch_nth:
  assumes "j < length out"
  shows "fold (\<lambda>s out. weighted_sum_loop (attention_scores scl q k S D b s) v out S D b s)
           [0..<S] out ! j =
         (if b * S * D \<le> j \<and> j < b * S * D + S * D
          then weighted_sum_at (attention_scores scl q k S D b ((j - b * S * D) div D)) v S D b
                 ((j - b * S * D) div D) ((j - b * S * D) mod D)
          else out ! j)"
proof (rule fold_blocks_nth [where w = D and off = "b * S * D"])
  show "length (weighted_sum_loop (attention_scores scl q k S D b i) v xs S D b i) = length xs"
    for i xs by (rule weighted_sum_loop_length)
next
  fix i j and xs :: "real list"
  assume h: "i < S" "b * S * D + i * D \<le> j" "j < b * S * D + Suc i * D" "j < length xs"
  have dm: "(j - b * S * D) div D = i" "(j - b * S * D) mod D = j - b * S * D - i * D"
    using block_div_mod [OF h(2,3)] by simp_all
  have "j - b * S * D - i * D = j - (b * S * D + i * D)" by simp
  with h dm show "weighted_sum_loop (attention_scores scl q k S D b i) v xs S D b i ! j =
          weighted_sum_at (attention_scores scl q k S D b ((j - b * S * D) div D)) v S D b
            ((j - b * S * D) div D) ((j - b * S * D) mod D)"
    by (simp add: weighted_sum_loop_nth)
next
  fix i j and xs :: "real list"
  assume "i < S" "\<not> (b * S * D + i * D \<le> j \<and> j < b * S * D + Suc i * D)"
  then show "weighted_sum_loop (attention_scores scl q k S D b i) v xs S D b i ! j = xs ! j"
    by (intro weighted_sum_loop_other) auto
qed (rule assms)

lemma batch_length:
  "length (fold (\<lambda>s out. weighted_sum_loop (attention_scores scl q k S D b s) v out S D b s)
             ss out) = length out"
  by (rule fold_keeps_length) (rule weighted_sum_loop_length)

lemma attention_loops_nth:
  assumes "b < B" "s < S" "d < D" "B * S * D \<le> length out"
  shows "attention_loops scl q k v out B S D ! (b * S * D + s * D + d) =
           weighted_sum_at (attention_scores scl q k S D b s) v S D b s d"
proof -
  let ?j = "b * S * D + s * D + d"
  let ?F = "\<lambda>j. weighted_sum_at
                   (attention_scores scl q k S D (j div (S * D)) ((j mod (S * D)) div D)) v S D
                   (j div (S * D)) ((j mod (S * D)) div D) ((j mod (S * D)) mod D)"
  let ?step = "\<lambda>b out. fold (\<lambda>s out.
                    weighted_sum_loop (attention_scores scl q k S D b s) v out S D b s) [0..<S] out"
  have sd: "s * D + d < S * D"
  proof -
    have "s * D + d < Suc s * D" using assms(3) by simp
    also have "\<dots> \<le> S * D" using assms(2) by (intro mult_le_mono1) simp
    finally show ?thesis .
  qed
  have jb: "?j < Suc b * (S * D)" using sd by (simp add: mult.assoc)
  also have "\<dots> \<le> B * (S * D)" using assms(1) by (intro mult_le_mono1) simp
  finally have jB: "?j < B * (S * D)" .
  then have jlen: "?j < length out" using assms(4) by (simp add: mult.assoc)
  have "fold ?step [0..<B] out ! ?j =
          (if 0 \<le> ?j \<and> ?j < 0 + B * (S * D) then ?F ?j else out ! ?j)"
  proof (rule fold_blocks_nth [where w = "S * D" and off = 0])
    show "length (?step i xs) = length xs" for i xs by (rule batch_length)
  next
    fix i j and xs :: "real list"
    assume h: "i < B" "0 + i * (S * D) \<le> j" "j < 0 + Suc i * (S * D)" "j < length xs"
    have dm: "j div (S * D) = i" "j mod (S * D) = j - i * (S * D)"
      using block_div_mod [OF h(2,3)] by simp_all
    have "i * S * D \<le> j" "j < i * S * D + S * D"
      using h(2,3) by (simp_all add: mult.assoc)
    then show "?step i xs ! j = ?F j"
      using batch_nth [OF h(4), of scl q k S D i v] dm by (simp add: mult.assoc)
  next
    fix i j and xs :: "real list"
    assume "i < B" "\<not> (0 + i * (S * D) \<le> j \<and> j < 0 + Suc i * (S * D))"
    then have "\<not> (i * S * D \<le> j \<and> j < i * S * D + S * D)"
      by (simp add: mult.assoc add.commute)
    then show "?step i xs ! j = xs ! j"
      by (rule batch_other)
  qed (rule jlen)
  moreover have "?j div (S * D) = b" "?j mod (S * D) = s * D + d"
  proof -
    have pos: "0 < S * D" using sd by linarith
    have j: "?j = b * (S * D) + (s * D + d)" by (simp add: mult.assoc)
    show "?j div (S * D) = b" unfolding j using sd pos by simp
    show "?j mod (S * D) = s * D + d" unfolding j using sd by simp
  qed
  moreover have "(s * D + d) div D = s" "(s * D + d) mod D = d"
    using assms(3) by simp_all
  ultimately show ?thesis
    using jB by (simp add: attention_loops_def)
qed

text \<open>
  C5. For every batch element \<open>b\<close>, query position \<open>s\<close> and component \<open>d\<close>, and every two
  runs of the loop nest on the same queries whose keys and values agree at the positions
  \<open>t \<le> s\<close> of batch element \<open>b\<close> (and may differ anywhere else, in particular at every
  \<open>t > s\<close>): both runs write the same value to the output cell \<open>(b, s, d)\<close>. The
  output buffers hold at least \<open>batch * seq * head_dim\<close> cells.
\<close>

theorem causal_output:
  assumes "b < B" "s < S" "d < D" "B * S * D \<le> length out" "B * S * D \<le> length out'"
    and k: "\<And>t e. t \<le> s \<Longrightarrow> e < D \<Longrightarrow>
               k ! (b * S * D + t * D + e) = k' ! (b * S * D + t * D + e)"
    and v: "\<And>t e. t \<le> s \<Longrightarrow> e < D \<Longrightarrow>
               v ! (b * S * D + t * D + e) = v' ! (b * S * D + t * D + e)"
  shows "attention_loops scl q k v out B S D ! (b * S * D + s * D + d) =
         attention_loops scl q k' v' out' B S D ! (b * S * D + s * D + d)"
proof -
  have "attention_scores scl q k S D b s = attention_scores scl q k' S D b s"
    by (rule attention_scores_cong) (rule k)
  moreover have "weighted_sum_at ws v S D b s d = weighted_sum_at ws v' S D b s d" for ws
    by (rule weighted_sum_at_cong) (rule v [OF _ assms(3)])
  ultimately show ?thesis
    using assms(1-5) by (simp add: attention_loops_nth)
qed

text \<open>
  Two positions, one component: changing the key and the value of position 1 leaves the
  output of position 0 at 1.
\<close>

theorem causal_output_position_0:
  "attention_loops 1 [1, 1] [0, 5] [1, 9] [0, 0] 1 2 1 ! 0 = 1"
proof -
  have "attention_loops 1 [1, 1] [0, 0] [1, 2] [0, 0] 1 2 1 ! 0 = 1"
    by (simp add: attention_eval)
  moreover have "attention_loops 1 [1, 1] [0, 0] [1, 2] [0, 0] 1 2 1 ! (0 * 2 * 1 + 0 * 1 + 0) =
                 attention_loops 1 [1, 1] [0, 5] [1, 9] [0, 0] 1 2 1 ! (0 * 2 * 1 + 0 * 1 + 0)"
    by (rule causal_output) simp_all
  ultimately show ?thesis by simp
qed

end
